theory Spec2Isabelle
  imports Complex_Main "HOL-Library.Sublist"
begin

section \<open>Characters and strings\<close>

text \<open>
  The scripts work on Python \<open>str\<close> values, sequences of code points. They are modelled
  as Isabelle strings: a character is a code point below 256 (ASCII and Latin-1), and
  \<open>ord\<close> reads it. On these code points the character classes below are exactly those of
  Python 3: \<open>is_space\<close> is \<open>str.isspace\<close> and the pattern \<open>\s\<close>, \<open>is_word\<close> is the pattern
  \<open>\w\<close>, \<open>is_digit_str\<close> is \<open>str.isdigit\<close>, \<open>lower_char\<close> is \<open>str.lower\<close>; the classes
  \<open>is_upper\<close>, \<open>is_lower\<close>, \<open>is_alpha\<close>, \<open>is_digit\<close> and \<open>is_alnum\<close> are the ASCII ranges
  \<open>[A-Z]\<close>, \<open>[a-z]\<close>, \<open>[a-zA-Z]\<close>, \<open>[0-9]\<close> (also the pattern \<open>\d\<close>) and \<open>[a-zA-Z0-9]\<close> that the
  patterns of the source spell out.
\<close>

definition ord :: "char \<Rightarrow> nat" where
  "ord c = of_char c"

definition is_upper :: "char \<Rightarrow> bool" where
  "is_upper c = (65 \<le> ord c \<and> ord c \<le> 90)"

definition is_lower :: "char \<Rightarrow> bool" where
  "is_lower c = (97 \<le> ord c \<and> ord c \<le> 122)"

definition is_alpha :: "char \<Rightarrow> bool" where
  "is_alpha c = (is_upper c \<or> is_lower c)"

definition is_digit :: "char \<Rightarrow> bool" where
  "is_digit c = (48 \<le> ord c \<and> ord c \<le> 57)"

definition is_alnum :: "char \<Rightarrow> bool" where
  "is_alnum c = (is_alpha c \<or> is_digit c)"

text \<open>
  The letters and numeric characters of Latin-1 beyond ASCII: the ordinal indicators
  0xAA and 0xBA, the superscripts 0xB2, 0xB3 and 0xB9, the micro sign 0xB5, the
  fractions 0xBC to 0xBE, and the letters 0xC0 to 0xFF without the signs 0xD7 and 0xF7.
\<close>

definition is_latin1_alnum :: "char \<Rightarrow> bool" where
  "is_latin1_alnum c =
     (ord c = 170 \<or> ord c = 178 \<or> ord c = 179 \<or> ord c = 181 \<or> ord c = 185 \<or> ord c = 186
      \<or> (188 \<le> ord c \<and> ord c \<le> 190)
      \<or> (192 \<le> ord c \<and> ord c \<le> 214)
      \<or> (216 \<le> ord c \<and> ord c \<le> 246)
      \<or> (248 \<le> ord c \<and> ord c \<le> 255))"

text \<open>\<open>\w\<close>: the characters for which \<open>str.isalnum\<close> holds, and the underscore.\<close>

definition is_word :: "char \<Rightarrow> bool" where
  "is_word c = (is_alnum c \<or> c = CHR ''_'' \<or> is_latin1_alnum c)"

text \<open>\<open>str.isdigit\<close>: the digits and the superscripts 0xB2, 0xB3 and 0xB9.\<close>

definition is_digit_str :: "char \<Rightarrow> bool" where
  "is_digit_str c = (is_digit c \<or> ord c = 178 \<or> ord c = 179 \<or> ord c = 185)"

text \<open>
  \<open>\s\<close> and \<open>str.isspace\<close>: code points 9 to 13 and 28 to 32, the next-line control 0x85
  and the no-break space 0xA0.
\<close>

definition is_space :: "char \<Rightarrow> bool" where
  "is_space c =
     ((9 \<le> ord c \<and> ord c \<le> 13) \<or> (28 \<le> ord c \<and> ord c \<le> 32) \<or> ord c = 133 \<or> ord c = 160)"

text \<open>
  \<open>str.lower\<close> on one character: the capitals \<open>A\<close> to \<open>Z\<close> and the Latin-1 capitals 0xC0 to
  0xDE (without the sign 0xD7) move up by 32; every other character stays.
\<close>

definition has_lowercase :: "char \<Rightarrow> bool" where
  "has_lowercase c =
     (is_upper c \<or> (192 \<le> ord c \<and> ord c \<le> 214) \<or> (216 \<le> ord c \<and> ord c \<le> 222))"

definition lower_char :: "char \<Rightarrow> char" where
  "lower_char c = (if has_lowercase c then char_of (ord c + 32) else c)"

definition lower :: "string \<Rightarrow> string" where
  "lower s = map lower_char s"

text \<open>\<open>str.strip()\<close>: white space removed at both ends.\<close>

definition strip :: "string \<Rightarrow> string" where
  "strip s = rev (dropWhile is_space (rev (dropWhile is_space s)))"

text \<open>\<open>str.split()\<close> with no argument: the maximal runs of characters that are not white space.\<close>

function split_ws :: "string \<Rightarrow> string list" where
  "split_ws [] = []"
| "split_ws (c # cs) =
     (if is_space c then split_ws cs
      else (c # takeWhile (\<lambda>x. \<not> is_space x) cs) # split_ws (dropWhile (\<lambda>x. \<not> is_space x) cs))"
  by pat_completeness auto
termination
  by (relation "measure length") (auto simp: length_dropWhile_le less_Suc_eq_le)

text \<open>\<open>sep.join(xs)\<close>.\<close>

fun join :: "string \<Rightarrow> string list \<Rightarrow> string" where
  "join sep [] = []"
| "join sep [x] = x"
| "join sep (x # y # ys) = x @ sep @ join sep (y # ys)"

text \<open>
  \<open>re.sub(pattern, repl, s)\<close> for a pattern that never matches the empty string and looks
  neither behind nor at an anchor: the matcher \<open>m\<close> is given the text from the current
  position on and answers with the replacement and the number of characters matched;
  where it fails, the character is copied and the scan moves one position on.
\<close>

fun re_sub :: "(string \<Rightarrow> (string \<times> nat) option) \<Rightarrow> string \<Rightarrow> string" where
  "re_sub m [] = []"
| "re_sub m (c # cs) =
     (case m (c # cs) of
        None \<Rightarrow> c # re_sub m cs
      | Some (rep, n) \<Rightarrow> rep @ re_sub m (drop (n - 1) cs))"

section \<open>Title matching by word overlap (merge\_pdfs\_v3.py)\<close>

text \<open>The pattern \<open>\\[a-zA-Z]+\{([^}]*)\}\<close>, replaced by its group.\<close>

definition match_command_group :: "string \<Rightarrow> (string \<times> nat) option" where
  "match_command_group s =
     (case s of
        [] \<Rightarrow> None
      | c # cs \<Rightarrow>
          if c \<noteq> CHR 0x5C then None
          else let name = takeWhile is_alpha cs; r = dropWhile is_alpha cs in
            if name = [] then None
            else (case r of
                [] \<Rightarrow> None
              | b # r' \<Rightarrow>
                  if b \<noteq> CHR ''{'' then None
                  else let inner = takeWhile (\<lambda>x. x \<noteq> CHR ''}'') r' in
                    if dropWhile (\<lambda>x. x \<noteq> CHR ''}'') r' = [] then None
                    else Some (inner, 1 + length name + 1 + length inner + 1)))"

text \<open>The pattern \<open>\\[a-zA-Z]+\<close>, replaced by nothing.\<close>

definition match_command :: "string \<Rightarrow> (string \<times> nat) option" where
  "match_command s =
     (case s of
        [] \<Rightarrow> None
      | c # cs \<Rightarrow>
          if c \<noteq> CHR 0x5C then None
          else let name = takeWhile is_alpha cs in
            if name = [] then None else Some ([], 1 + length name))"

text \<open>The pattern \<open>\s+\<close>, replaced by one space.\<close>

definition match_spaces :: "string \<Rightarrow> (string \<times> nat) option" where
  "match_spaces s =
     (case s of
        [] \<Rightarrow> None
      | c # cs \<Rightarrow> if is_space c then Some ('' '', 1 + length (takeWhile is_space cs)) else None)"

text \<open>\<open>normalize_title\<close> of merge\_pdfs\_v3.py, one definition per statement.\<close>

definition normalize_title_pdf :: "string \<Rightarrow> string" where
  "normalize_title_pdf title =
     (if title = [] then []
      else let
        t1 = re_sub match_command_group title;
        t2 = re_sub match_command t1;
        t3 = filter (\<lambda>c. c \<noteq> CHR ''{'' \<and> c \<noteq> CHR ''}'' \<and> c \<noteq> CHR 0x5C) t2;
        t4 = map (\<lambda>c. if is_alnum c \<or> is_space c then c else CHR '' '') t3;
        t5 = re_sub match_spaces t4
      in strip (lower t5))"

definition stopwords :: "string list" where
  "stopwords = [''the'', ''a'', ''an'', ''of'', ''in'', ''on'', ''for'', ''to'', ''and'', ''with'',
     ''by'', ''from'', ''at'', ''as'', ''is'', ''are'', ''was'', ''were'']"

definition get_title_words :: "string \<Rightarrow> string list" where
  "get_title_words title =
     filter (\<lambda>w. w \<notin> set stopwords \<and> length w > 2) (split_ws (normalize_title_pdf title))"

text \<open>
  \<open>titles_match\<close> with its default threshold 0.6. The source compares the float
  \<open>overlap / min_len\<close> with the float 0.6; the model compares the exact quotient with
  6/10, which gives the same answer for every word count below \<open>10^15\<close>.
\<close>

definition titles_match :: "string \<Rightarrow> string \<Rightarrow> bool" where
  "titles_match title1 title2 =
     (let words1 = set (get_title_words title1);
          words2 = set (get_title_words title2)
      in if words1 = {} \<or> words2 = {} then False
         else let overlap = card (words1 \<inter> words2);
                  min_len = min (card words1) (card words2)
              in if min_len < 3 then False
                 else (of_nat overlap :: rat) / of_nat min_len \<ge> 6 / 10)"

text \<open>A text in which every run of white space is one blank.\<close>

fun single_spaced :: "string \<Rightarrow> bool" where
  "single_spaced [] = True"
| "single_spaced [c] = (is_space c \<longrightarrow> c = CHR '' '')"
| "single_spaced (c # d # r) = ((is_space c \<longrightarrow> c = CHR '' '' \<and> \<not> is_space d) \<and> single_spaced (d # r))"

text \<open>The characters a title normalised by merge\_pdfs\_v3.py is made of.\<close>

definition pdf_char :: "char \<Rightarrow> bool" where
  "pdf_char c = ((is_alnum c \<or> is_space c) \<and> lower_char c = c)"

section \<open>Title normalisation for the audit (audit\_publications.py)\<close>

text \<open>\<open>normalize_title\<close> of audit\_publications.py.\<close>

definition normalize_title :: "string \<Rightarrow> string" where
  "normalize_title title =
     (let t1 = filter (\<lambda>c. c \<noteq> CHR ''{'' \<and> c \<noteq> CHR ''}'') title;
          t2 = lower t1;
          t3 = filter (\<lambda>c. is_word c \<or> is_space c) t2
      in join '' '' (split_ws t3))"

section \<open>Identifier normalisation (clean\_publications\_v5.py)\<close>

text \<open>\<open>s.startswith(p)\<close> together with the rest of \<open>s\<close> after \<open>p\<close>.\<close>

definition after_prefix :: "string \<Rightarrow> string \<Rightarrow> string option" where
  "after_prefix p s = (if take (length p) s = p then Some (drop (length p) s) else None)"

text \<open>
  The pattern \<open>^https?://(dx\.)?doi\.org/\<close> at the start of the text; the answer is the
  text after the match. The optional parts are tried greedily; giving one back never
  lets the rest match, since \<open>s\<close> is not \<open>:\<close> and \<open>dx.\<close> does not start \<open>doi.org/\<close>.
\<close>

definition match_resolver :: "string \<Rightarrow> string option" where
  "match_resolver s =
     (case after_prefix ''http'' s of
        None \<Rightarrow> None
      | Some r1 \<Rightarrow>
          let r2 = (case after_prefix ''s'' r1 of Some r \<Rightarrow> r | None \<Rightarrow> r1) in
          (case after_prefix ''://'' r2 of
             None \<Rightarrow> None
           | Some r3 \<Rightarrow>
               let r4 = (case after_prefix ''dx.'' r3 of Some r \<Rightarrow> r | None \<Rightarrow> r3) in
               after_prefix ''doi.org/'' r4))"

text \<open>\<open>re.sub(r'^https?://(dx\.)?doi\.org/', '', s)\<close>: the anchored pattern is removed once.\<close>

definition strip_resolver :: "string \<Rightarrow> string" where
  "strip_resolver s = (case match_resolver s of Some r \<Rightarrow> r | None \<Rightarrow> s)"

text \<open>
  The identifier normalisation of \<open>deduplicate_by_doi\<close> (the spec's
  \<open>normalize_identifier\<close>): \<open>doi.lower().strip()\<close>, then the resolver prefix removed.
\<close>

definition normalize_identifier :: "string \<Rightarrow> string" where
  "normalize_identifier doi = strip_resolver (strip (lower doi))"

section \<open>The field tokenizer (clean\_publications\_v5.py)\<close>

text \<open>
  Python exceptions are values: a function that can raise returns \<open>py_error + 'a\<close>, and
  every subscript \<open>s[i]\<close> of the source is the checked read \<open>char_at\<close>.
\<close>

datatype py_error = IndexError | ValueError

definition char_at :: "string \<Rightarrow> nat \<Rightarrow> py_error + char" where
  "char_at s i = (if i < length s then Inr (s ! i) else Inl IndexError)"

text \<open>The slice \<open>s[a:b]\<close> for indices that are not negative.\<close>

definition slice :: "string \<Rightarrow> nat \<Rightarrow> nat \<Rightarrow> string" where
  "slice s a b = take (b - a) (drop a s)"

text \<open>\<open>s.find(c, start)\<close> for a single character: the first index from \<open>start\<close> on, or -1.\<close>

fun find_from :: "string \<Rightarrow> char \<Rightarrow> nat \<Rightarrow> int" where
  "find_from [] c i = - 1"
| "find_from (x # xs) c i = (if x = c then int i else find_from xs c (Suc i))"

definition py_find :: "string \<Rightarrow> char \<Rightarrow> nat \<Rightarrow> int" where
  "py_find s c start = find_from (drop start s) c start"

text \<open>
  The \<open>while\<close> loop of \<open>extract_braced_content\<close>: \<open>depth\<close> and \<open>pos\<close> are its variables,
  \<open>start_pos\<close> is what it returns beside None when the text ends first.
\<close>

function brace_loop :: "string \<Rightarrow> nat \<Rightarrow> int \<Rightarrow> nat \<Rightarrow> py_error + (string option \<times> nat)" where
  "brace_loop s start_pos depth pos =
     (if pos < length s then
        (case char_at s pos of
           Inl e \<Rightarrow> Inl e
         | Inr c \<Rightarrow>
             if c = CHR ''{'' then brace_loop s start_pos (depth + 1) (pos + 1)
             else if c = CHR ''}'' then
               (if depth - 1 = 0 then Inr (Some (slice s (start_pos + 1) pos), pos + 1)
                else brace_loop s start_pos (depth - 1) (pos + 1))
             else brace_loop s start_pos depth (pos + 1))
      else Inr (None, start_pos))"
  by pat_completeness auto
termination
  by (relation "measure (\<lambda>(s, start_pos, depth, pos). length s - pos)") auto

declare brace_loop.simps [simp del]

definition extract_braced_content :: "string \<Rightarrow> nat \<Rightarrow> py_error + (string option \<times> nat)" where
  "extract_braced_content s start_pos =
     (if start_pos \<ge> length s then Inr (None, start_pos)
      else (case char_at s start_pos of
          Inl e \<Rightarrow> Inl e
        | Inr c \<Rightarrow>
            if c \<noteq> CHR ''{'' then Inr (None, start_pos)
            else brace_loop s start_pos 0 start_pos))"

text \<open>
  The pattern \<open>author\s*=\s*\<close> with \<open>re.IGNORECASE\<close>, tried at the start of the text: the
  number of characters matched.
\<close>

definition match_author :: "string \<Rightarrow> nat option" where
  "match_author t =
     (if lower (take 6 t) = ''author'' then
        (case dropWhile is_space (drop 6 t) of
           [] \<Rightarrow> None
         | c # r \<Rightarrow>
             if c = CHR ''='' then Some (length t - length (dropWhile is_space r)) else None)
      else None)"

text \<open>\<open>re.search\<close> for that pattern: the end of the leftmost match.\<close>

fun search_author :: "string \<Rightarrow> nat option" where
  "search_author [] = None"
| "search_author (c # cs) =
     (case match_author (c # cs) of
        Some e \<Rightarrow> Some e
      | None \<Rightarrow> (case search_author cs of None \<Rightarrow> None | Some e \<Rightarrow> Some (Suc e)))"

definition parse_author_field :: "string \<Rightarrow> py_error + string option" where
  "parse_author_field fields_str =
     (case search_author fields_str of
        None \<Rightarrow> Inr None
      | Some start \<Rightarrow>
          if start < length fields_str \<and> char_at fields_str start = Inr (CHR ''{'') then
            (case extract_braced_content fields_str start of
               Inl e \<Rightarrow> Inl e
             | Inr (content, _) \<Rightarrow> Inr content)
          else if start < length fields_str \<and> char_at fields_str start = Inr (CHR 0x22) then
            (let end = py_find fields_str (CHR 0x22) (start + 1) in
               if end > int start then Inr (Some (slice fields_str (start + 1) (nat end)))
               else Inr None)
          else Inr None)"

text \<open>
  The pattern \<open>(\w+)\s*=\s*\<close> tried at the start of the text: the group and the number of
  characters matched. The greedy runs never have to give a character back: a word
  character is neither white space nor \<open>=\<close>.
\<close>

definition match_field :: "string \<Rightarrow> (string \<times> nat) option" where
  "match_field t =
     (let w = takeWhile is_word t in
        if w = [] then None
        else (case dropWhile is_space (dropWhile is_word t) of
            [] \<Rightarrow> None
          | c # r \<Rightarrow>
              if c = CHR ''='' then Some (w, length t - length (dropWhile is_space r)) else None))"

text \<open>\<open>re.search\<close> for that pattern: the group and the end of the leftmost match.\<close>

fun search_field :: "string \<Rightarrow> (string \<times> nat) option" where
  "search_field [] = None"
| "search_field (c # cs) =
     (case match_field (c # cs) of
        Some r \<Rightarrow> Some r
      | None \<Rightarrow> (case search_field cs of None \<Rightarrow> None | Some (w, e) \<Rightarrow> Some (w, Suc e)))"

text \<open>
  The parsed fields: a Python dict, which keeps the order of insertion. It is an
  association list with one pair per name, in that order.
\<close>

type_synonym fields = "(string \<times> string) list"

definition has_field :: "fields \<Rightarrow> string \<Rightarrow> bool" where
  "has_field fs k = (map_of fs k \<noteq> None)"

text \<open>\<open>fields.get(k, d)\<close>.\<close>

definition get :: "fields \<Rightarrow> string \<Rightarrow> string \<Rightarrow> string" where
  "get fs k d = (case map_of fs k of Some v \<Rightarrow> v | None \<Rightarrow> d)"

text \<open>\<open>if field_name not in fields: fields[field_name] = v\<close>.\<close>

definition set_default :: "fields \<Rightarrow> string \<Rightarrow> string \<Rightarrow> fields" where
  "set_default fs k v = (if has_field fs k then fs else fs @ [(k, v)])"

lemma brace_loop_pos:
  "brace_loop s start_pos depth pos = Inr (content, next_pos) \<Longrightarrow> start_pos \<le> pos
   \<Longrightarrow> start_pos \<le> next_pos"
proof (induction s start_pos depth pos rule: brace_loop.induct)
  case (1 s start_pos depth pos)
  show ?case
  proof (cases "pos < length s")
    case False
    with "1.prems" show ?thesis by (simp add: brace_loop.simps)
  next
    case True
    then have c: "char_at s pos = Inr (s ! pos)" by (simp add: char_at_def)
    consider (op) "s ! pos = CHR ''{''"
      | (cl0) "s ! pos = CHR ''}''" "depth - 1 = 0"
      | (cl) "s ! pos = CHR ''}''" "depth - 1 \<noteq> 0"
      | (other) "s ! pos \<noteq> CHR ''{''" "s ! pos \<noteq> CHR ''}''"
      by blast
    then show ?thesis
    proof cases
      case op
      with True c "1.prems" have "brace_loop s start_pos (depth + 1) (pos + 1) = Inr (content, next_pos)"
        by (simp add: brace_loop.simps [of s start_pos depth pos])
      with "1.IH"(1) [OF True c op] "1.prems"(2) show ?thesis by simp
    next
      case cl0
      with True c "1.prems" show ?thesis
        by (simp add: brace_loop.simps [of s start_pos depth pos])
    next
      case cl
      with True c "1.prems" have "brace_loop s start_pos (depth - 1) (pos + 1) = Inr (content, next_pos)"
        by (simp add: brace_loop.simps [of s start_pos depth pos])
      with "1.IH"(2) [OF True c _ cl(1) cl(2)] "1.prems"(2) cl show ?thesis by simp
    next
      case other
      with True c "1.prems" have "brace_loop s start_pos depth (pos + 1) = Inr (content, next_pos)"
        by (simp add: brace_loop.simps [of s start_pos depth pos])
      with "1.IH"(3) [OF True c other] "1.prems"(2) show ?thesis by simp
    qed
  qed
qed

lemma extract_braced_content_pos:
  "extract_braced_content s start_pos = Inr (content, next_pos) \<Longrightarrow> start_pos \<le> next_pos"
  using brace_loop_pos [of s start_pos 0 start_pos content next_pos]
  by (auto simp: extract_braced_content_def char_at_def split: if_splits)

lemma match_field_pos: "match_field t = Some (w, e) \<Longrightarrow> 0 < e"
proof -
  assume a: "match_field t = Some (w, e)"
  then obtain c r where d: "dropWhile is_space (dropWhile is_word t) = c # r"
    and e: "e = length t - length (dropWhile is_space r)"
    by (auto simp: match_field_def Let_def split: if_splits list.splits)
  have "length (dropWhile is_space r) \<le> length r" by (rule length_dropWhile_le)
  moreover have "length (c # r) \<le> length t"
    using d length_dropWhile_le [of is_space "dropWhile is_word t"] length_dropWhile_le [of is_word t]
    by (metis le_trans)
  ultimately show ?thesis using e by simp
qed

lemma search_field_pos: "search_field t = Some (w, e) \<Longrightarrow> 0 < e"
  by (induction t arbitrary: e) (auto split: option.splits dest: match_field_pos)

text \<open>
  The \<open>while\<close> loop of \<open>parse_fields\<close>; \<open>pos\<close> and \<open>fields\<close> are its variables. The search runs
  on \<open>fields_str[pos:]\<close>, so \<open>field_start\<close> is \<open>pos\<close> plus the end of the match.
\<close>

function parse_loop :: "string \<Rightarrow> nat \<Rightarrow> fields \<Rightarrow> py_error + fields" where
  "parse_loop fields_str pos fields =
     (if pos < length fields_str then
        (case search_field (drop pos fields_str) of
           None \<Rightarrow> Inr fields
         | Some (name, mend) \<Rightarrow>
             let field_name = lower name; field_start = pos + mend in
             if field_start \<ge> length fields_str then Inr fields
             else (case char_at fields_str field_start of
                 Inl e \<Rightarrow> Inl e
               | Inr c \<Rightarrow>
                   if c = CHR ''{'' then
                     (case extract_braced_content fields_str field_start of
                        Inl e \<Rightarrow> Inl e
                      | Inr (content, next_pos) \<Rightarrow>
                          parse_loop fields_str next_pos
                            (case content of
                               Some v \<Rightarrow> set_default fields field_name v
                             | None \<Rightarrow> fields))
                   else if c = CHR 0x22 then
                     (let end = py_find fields_str (CHR 0x22) (field_start + 1) in
                        parse_loop fields_str
                          (if end > int field_start then nat (end + 1) else field_start + 1)
                          (if end > int field_start
                           then set_default fields field_name (slice fields_str (field_start + 1) (nat end))
                           else fields))
                   else if is_digit_str c then
                     (let num = takeWhile is_digit (drop field_start fields_str) in
                        parse_loop fields_str
                          (field_start + (if num \<noteq> [] then length num else 1))
                          (if num \<noteq> [] then set_default fields field_name num else fields))
                   else parse_loop fields_str (field_start + 1) fields))
      else Inr fields)"
  by pat_completeness auto
termination
proof (relation "measure (\<lambda>(fields_str, pos, fields). length fields_str - pos)", goal_cases)
  case 1
  then show ?case by simp
next
  case (2 fields_str pos fields x2 name mend field_name field_start c x2a content next_pos)
  then have "0 < mend" using search_field_pos by metis
  moreover from 2 have "field_start \<le> next_pos" using extract_braced_content_pos by metis
  ultimately show ?case using 2 by simp
next
  case (3 fields_str pos fields x2 name mend field_name field_start c e)
  then have "0 < mend" using search_field_pos by metis
  then show ?case using 3 by auto
next
  case (4 fields_str pos fields x2 name mend field_name field_start c num)
  then have "0 < mend" using search_field_pos by metis
  then show ?case using 4 by auto
next
  case (5 fields_str pos fields x2 name mend field_name field_start c)
  then have "0 < mend" using search_field_pos by metis
  then show ?case using 5 by auto
qed

declare parse_loop.simps [simp del]

text \<open>\<open>parse_fields\<close>: the author is looked for first, then the loop runs from position 0.\<close>

definition parse_fields :: "string \<Rightarrow> py_error + fields" where
  "parse_fields fields_str =
     (case parse_author_field fields_str of
        Inl e \<Rightarrow> Inl e
      | Inr author \<Rightarrow>
          parse_loop fields_str 0
            (case author of
               Some a \<Rightarrow> if a \<noteq> [] then [(''author'', a)] else []
             | None \<Rightarrow> []))"

text \<open>The field mapping of a raw field string, for statements about it.\<close>

definition parsed :: "string \<Rightarrow> fields" where
  "parsed fields_str = (case parse_fields fields_str of Inr fs \<Rightarrow> fs | Inl e \<Rightarrow> [])"

section \<open>Author filter and citation keys (clean\_publications\_v5.py)\<close>

text \<open>\<open>sub in s\<close> for strings.\<close>

fun contains :: "string \<Rightarrow> string \<Rightarrow> bool" where
  "contains sub [] = (sub = [])"
| "contains sub (c # cs) = (take (length sub) (c # cs) = sub \<or> contains sub cs)"

definition is_bulbulia_author :: "string \<Rightarrow> bool" where
  "is_bulbulia_author author_str =
     (if author_str = [] then False else contains ''bulbulia'' (lower author_str))"

text \<open>\<open>s.split(sep)[0]\<close> for a separator that is not empty: the text before its first occurrence.\<close>

fun before_sep :: "string \<Rightarrow> string \<Rightarrow> string" where
  "before_sep sep [] = []"
| "before_sep sep (c # cs) =
     (if take (length sep) (c # cs) = sep then [] else c # before_sep sep cs)"

text \<open>The accent characters of the first pattern: \<open>'`^"~=.uvHtcdbkroB\<close>.\<close>

definition accent_chars :: "char list" where
  "accent_chars = [CHR 0x27, CHR 0x60, CHR ''^'', CHR 0x22, CHR ''~'', CHR ''='', CHR ''.'']
     @ ''uvHtcdbkroB''"

text \<open>
  The pattern \<open>\\[accent]\{?([a-zA-Z])\}?\<close>, replaced by its group. An opening brace that
  was taken is never given back: the letter would have to match it.
\<close>

definition match_accent :: "string \<Rightarrow> (string \<times> nat) option" where
  "match_accent s =
     (case s of
        b # a # r \<Rightarrow>
          if b = CHR 0x5C \<and> a \<in> set accent_chars then
            (let opened = (r \<noteq> [] \<and> hd r = CHR ''{'');
                 r1 = (if opened then tl r else r) in
               (case r1 of
                  [] \<Rightarrow> None
                | l # r2 \<Rightarrow>
                    if is_alpha l then
                      (let closed = (r2 \<noteq> [] \<and> hd r2 = CHR ''}'') in
                         Some ([l], 2 + (if opened then 1 else 0) + 1 + (if closed then 1 else 0)))
                    else None))
          else None
      | _ \<Rightarrow> None)"

text \<open>The pattern \<open>\{\\([a-zA-Z])\}\<close>, replaced by its group.\<close>

definition match_braced_letter :: "string \<Rightarrow> (string \<times> nat) option" where
  "match_braced_letter s =
     (case s of
        a # b # l # c # r \<Rightarrow>
          if a = CHR ''{'' \<and> b = CHR 0x5C \<and> is_alpha l \<and> c = CHR ''}'' then Some ([l], 4) else None
      | _ \<Rightarrow> None)"

definition get_first_author_lastname :: "string \<Rightarrow> string option" where
  "get_first_author_lastname author_str =
     (if author_str = [] then None
      else let
        first_author = strip (before_sep '' and '' author_str);
        first_author = re_sub match_accent first_author;
        first_author = re_sub match_braced_letter first_author;
        first_author = filter (\<lambda>c. c \<noteq> CHR ''{'' \<and> c \<noteq> CHR ''}'') first_author
      in
        if CHR '','' \<in> set first_author then
          (let last_name = filter is_alpha (strip (before_sep '','' first_author)) in
             if last_name \<noteq> [] then Some last_name else None)
        else
          (let parts = split_ws first_author in
             if parts \<noteq> [] then
               (let last_name = filter is_alpha (last parts) in
                  if last_name \<noteq> [] then Some last_name else None)
             else None))"

text \<open>\<open>s[-n:]\<close> for \<open>n > 0\<close>: the last \<open>n\<close> characters.\<close>

definition take_last :: "nat \<Rightarrow> string \<Rightarrow> string" where
  "take_last n s = drop (length s - n) s"

definition generate_citation_key :: "fields \<Rightarrow> string \<Rightarrow> string" where
  "generate_citation_key fields entry_type =
     (let author = get fields ''author'' [];
          last_name = (case get_first_author_lastname author of Some n \<Rightarrow> n | None \<Rightarrow> ''Unknown'');
          year = get fields ''year'' ''XXXX'';
          doi = get fields ''doi'' [];
          doi_suffix =
            (if doi \<noteq> [] then
               take_last 25 (map (\<lambda>c. if is_alnum c then c else CHR ''_'') (strip_resolver doi))
             else take 20 (filter is_alnum (get fields ''title'' [])))
      in last_name @ ''_'' @ year @ ''_'' @ doi_suffix)"

section \<open>Deduplication (clean\_publications\_v5.py)\<close>

text \<open>An extracted entry: the dict with the keys \<open>type\<close>, \<open>original_key\<close> and \<open>fields_str\<close>.\<close>

record entry =
  entry_type :: string
  original_key :: string
  fields_str :: string

text \<open>\<open>xs.index(x)\<close>: the first position of an equal element, or ValueError.\<close>

fun index_of :: "'a list \<Rightarrow> 'a \<Rightarrow> py_error + nat" where
  "index_of [] x = Inl ValueError"
| "index_of (y # ys) x =
     (if y = x then Inr 0
      else (case index_of ys x of Inl e \<Rightarrow> Inl e | Inr i \<Rightarrow> Inr (Suc i)))"

text \<open>The variables of the loop of \<open>deduplicate_by_doi\<close>.\<close>

record dedup_state =
  seen_dois :: "string \<rightharpoonup> entry"
  seen_titles :: "string \<rightharpoonup> bool"
  unique_entries :: "entry list"

text \<open>One pass of the loop body.\<close>

definition dedup_step :: "dedup_state \<Rightarrow> entry \<Rightarrow> py_error + dedup_state" where
  "dedup_step st entry =
     (case parse_fields (fields_str entry) of
        Inl e \<Rightarrow> Inl e
      | Inr flds \<Rightarrow>
          let doi = normalize_identifier (get flds ''doi'' []) in
          if doi \<noteq> [] then
            (case seen_dois st doi of
               None \<Rightarrow>
                 Inr (st\<lparr>seen_dois := (seen_dois st)(doi \<mapsto> entry),
                         unique_entries := unique_entries st @ [entry]\<rparr>)
             | Some existing \<Rightarrow>
                 (case parse_fields (fields_str existing) of
                    Inl e \<Rightarrow> Inl e
                  | Inr existing_fields \<Rightarrow>
                      if length flds > length existing_fields then
                        (case index_of (unique_entries st) existing of
                           Inl e \<Rightarrow> Inl e
                         | Inr idx \<Rightarrow>
                             Inr (st\<lparr>unique_entries := (unique_entries st)[idx := entry],
                                     seen_dois := (seen_dois st)(doi \<mapsto> entry)\<rparr>))
                      else Inr st))
          else
            (let title = lower (get flds ''title'' []);
                 title_normalized = filter (\<lambda>c. is_lower c \<or> is_digit c) title in
               if title_normalized \<noteq> [] \<and> seen_titles st title_normalized = None then
                 Inr (st\<lparr>seen_titles := (seen_titles st)(title_normalized \<mapsto> True),
                         unique_entries := unique_entries st @ [entry]\<rparr>)
               else if title_normalized = [] then
                 Inr (st\<lparr>unique_entries := unique_entries st @ [entry]\<rparr>)
               else Inr st))"

fun dedup_loop :: "dedup_state \<Rightarrow> entry list \<Rightarrow> py_error + dedup_state" where
  "dedup_loop st [] = Inr st"
| "dedup_loop st (entry # entries) =
     (case dedup_step st entry of Inl e \<Rightarrow> Inl e | Inr st' \<Rightarrow> dedup_loop st' entries)"

definition deduplicate_by_doi :: "entry list \<Rightarrow> py_error + entry list" where
  "deduplicate_by_doi entries =
     (case dedup_loop \<lparr>seen_dois = Map.empty, seen_titles = Map.empty, unique_entries = []\<rparr> entries of
        Inl e \<Rightarrow> Inl e
      | Inr st \<Rightarrow> Inr (unique_entries st))"

section \<open>Key registry and serializer (clean\_publications\_v5.py)\<close>

text \<open>
  \<open>chr(n)\<close>. Characters are 8-bit here, so the model is that of the source for code
  points below 256, that is for fewer than 160 collisions on one base key.
\<close>

definition chr :: "nat \<Rightarrow> char" where
  "chr n = char_of n"

text \<open>
  The lines of \<open>format_entry\<close> under ``Ensure uniqueness'': the key given to a record
  with this base key, and the registry \<open>key_counts\<close> after it.
\<close>

definition unique_key :: "string \<Rightarrow> (string \<rightharpoonup> nat) \<Rightarrow> string \<times> (string \<rightharpoonup> nat)" where
  "unique_key base_key key_counts =
     (case key_counts base_key of
        Some n \<Rightarrow> (base_key @ ''_'' @ [chr (96 + (n + 1))], key_counts(base_key \<mapsto> n + 1))
      | None \<Rightarrow> (base_key, key_counts(base_key \<mapsto> 0)))"

text \<open>A literal pattern, as \<open>str.replace(lit, rep)\<close> looks for it.\<close>

definition match_literal :: "string \<Rightarrow> string \<Rightarrow> string \<Rightarrow> (string \<times> nat) option" where
  "match_literal lit rep s = (if take (length lit) s = lit then Some (rep, length lit) else None)"

text \<open>The pattern \<open></?scp>\<close>, replaced by nothing.\<close>

definition match_scp :: "string \<Rightarrow> (string \<times> nat) option" where
  "match_scp s =
     (if take 5 s = ''<scp>'' then Some ([], 5)
      else if take 6 s = ''</scp>'' then Some ([], 6)
      else None)"

text \<open>``Clean HTML entities'': \<open>value.replace('&amp;', '&')\<close>, then the \<open>scp\<close> tags removed.\<close>

definition clean_value :: "string \<Rightarrow> string" where
  "clean_value v = re_sub match_scp (re_sub (match_literal ''&amp;'' ''&'') v)"

definition field_line :: "string \<Rightarrow> string \<Rightarrow> string" where
  "field_line field v = ''  '' @ field @ '' = {'' @ clean_value v @ ''},''"

definition field_order :: "string list" where
  "field_order = [''author'', ''title'', ''journal'', ''booktitle'', ''volume'', ''number'',
     ''pages'', ''year'', ''month'', ''publisher'', ''doi'', ''url'', ''issn'', ''isbn'', ''editor'']"

definition skip_fields :: "string list" where
  "skip_fields = [''keywords'', ''copyright'', ''language'']"

text \<open>
  The list \<open>lines\<close> before the trailing comma is removed: the header, the fields of
  \<open>field_order\<close> that the record has, then the remaining fields in the order of the dict.
\<close>

definition entry_lines :: "string \<Rightarrow> string \<Rightarrow> fields \<Rightarrow> string list" where
  "entry_lines etype key flds =
     (let added_fields = filter (has_field flds) field_order in
        [''@'' @ etype @ ''{'' @ key @ '','']
        @ map (\<lambda>field. field_line field (get flds field [])) added_fields
        @ map (\<lambda>(field, v). field_line field v)
            (filter (\<lambda>(field, v). field \<notin> set added_fields \<and> field \<notin> set skip_fields) flds))"

text \<open>\<open>if lines[-1].endswith(','): lines[-1] = lines[-1][:-1]\<close>, on a list that is not empty.\<close>

definition drop_trailing_comma :: "string list \<Rightarrow> string list" where
  "drop_trailing_comma lines =
     (if last lines \<noteq> [] \<and> last (last lines) = CHR '','' then butlast lines @ [butlast (last lines)]
      else lines)"

text \<open>\<open>format_entry\<close>: the rendered entry and the registry after it.\<close>

definition format_entry :: "entry \<Rightarrow> (string \<rightharpoonup> nat) \<Rightarrow> py_error + (string \<times> (string \<rightharpoonup> nat))" where
  "format_entry entry key_counts =
     (case parse_fields (fields_str entry) of
        Inl e \<Rightarrow> Inl e
      | Inr flds \<Rightarrow>
          let base_key = generate_citation_key flds (entry_type entry);
              (key, key_counts') = unique_key base_key key_counts;
              lines = drop_trailing_comma (entry_lines (entry_type entry) key flds)
          in Inr (join [CHR 0x0A] (lines @ [''}'']), key_counts'))"

section \<open>The pipeline of main (clean\_publications\_v5.py)\<close>

text \<open>``Filter to only Bulbulia publications''.\<close>

fun filter_bulbulia :: "entry list \<Rightarrow> py_error + entry list" where
  "filter_bulbulia [] = Inr []"
| "filter_bulbulia (entry # entries) =
     (case parse_fields (fields_str entry) of
        Inl e \<Rightarrow> Inl e
      | Inr flds \<Rightarrow>
          (case filter_bulbulia entries of
             Inl e \<Rightarrow> Inl e
           | Inr rest \<Rightarrow>
               Inr (if is_bulbulia_author (get flds ''author'' []) then entry # rest else rest)))"

text \<open>
  ``Formatting entries with unique keys'': one registry for the run; an entry whose
  formatting raises is skipped.
\<close>

fun format_all :: "(string \<rightharpoonup> nat) \<Rightarrow> entry list \<Rightarrow> string list" where
  "format_all key_counts [] = []"
| "format_all key_counts (entry # entries) =
     (case format_entry entry key_counts of
        Inl e \<Rightarrow> format_all key_counts entries
      | Inr (formatted, key_counts') \<Rightarrow> formatted # format_all key_counts' entries)"

text \<open>The records that survive the author filter and the deduplication.\<close>

definition surviving :: "entry list \<Rightarrow> py_error + entry list" where
  "surviving entries =
     (case filter_bulbulia entries of
        Inl e \<Rightarrow> Inl e
      | Inr bulbulia_entries \<Rightarrow> deduplicate_by_doi bulbulia_entries)"

text \<open>The formatted entries of a run, before they are sorted and written.\<close>

definition formatted_entries :: "entry list \<Rightarrow> py_error + string list" where
  "formatted_entries entries =
     (case surviving entries of
        Inl e \<Rightarrow> Inl e
      | Inr unique \<Rightarrow> Inr (format_all Map.empty unique))"

section \<open>What the claims say about a record\<close>

text \<open>The parsed field mapping of an entry, its normalised DOI and its number of fields.\<close>

definition entry_fields :: "entry \<Rightarrow> fields" where
  "entry_fields e = parsed (fields_str e)"

definition entry_doi :: "entry \<Rightarrow> string" where
  "entry_doi e = normalize_identifier (get (entry_fields e) ''doi'' [])"

definition field_count :: "entry \<Rightarrow> nat" where
  "field_count e = length (entry_fields e)"

text \<open>
  \<open>e\<close> is the entry of the group \<open>g\<close> with the most fields, and the first of those: no entry
  of \<open>g\<close> has more fields, and every entry before the first occurrence of \<open>e\<close> has fewer.
\<close>

definition is_best :: "entry \<Rightarrow> entry list \<Rightarrow> bool" where
  "is_best e g =
     (e \<in> set g
      \<and> list_all (\<lambda>x. field_count x \<le> field_count e) g
      \<and> list_all (\<lambda>x. field_count x < field_count e) (takeWhile (\<lambda>x. x \<noteq> e) g))"

text \<open>The entries of a list with the normalised DOI \<open>d\<close>, in their order.\<close>

definition doi_group :: "string \<Rightarrow> entry list \<Rightarrow> entry list" where
  "doi_group d es = filter (\<lambda>x. entry_doi x = d) es"

section \<open>Facts about the string functions\<close>

lemma lower_char_idem [simp]: "lower_char (lower_char c) = lower_char c"
  by (simp add: lower_char_def has_lowercase_def is_upper_def ord_def)

lemma lower_idem [simp]: "lower (lower s) = lower s"
  by (simp add: lower_def)

lemma is_space_lower_char [simp]: "is_space (lower_char c) = is_space c"
  by (auto simp add: lower_char_def has_lowercase_def is_upper_def is_space_def ord_def)

lemma is_word_lower_char [simp]: "is_word (lower_char c) = is_word c"
  by (auto simp add: lower_char_def has_lowercase_def is_word_def is_latin1_alnum_def is_alnum_def is_alpha_def is_digit_def
      is_lower_def is_upper_def ord_def)

lemma is_alnum_lower_char [simp]: "is_alnum (lower_char c) = is_alnum c"
  by (auto simp add: lower_char_def has_lowercase_def is_alnum_def is_alpha_def is_digit_def
      is_lower_def is_upper_def ord_def)

lemma space_not_word: "is_space c \<Longrightarrow> \<not> is_word c"
  by (auto simp add: is_word_def is_latin1_alnum_def is_alnum_def is_alpha_def is_digit_def
      is_lower_def is_upper_def is_space_def ord_def)

lemma is_space_blank [simp]: "is_space CHR '' ''"
  by (simp add: is_space_def ord_def)

lemma split_ws_no_space: "w \<in> set (split_ws s) \<Longrightarrow> w \<noteq> [] \<and> (\<forall>c \<in> set w. \<not> is_space c)"
proof (induction s rule: split_ws.induct)
  case 1
  then show ?case by simp
next
  case (2 c cs)
  show ?case
  proof (cases "is_space c")
    case True
    with 2 show ?thesis by simp
  next
    case False
    with 2(3) have "w = c # takeWhile (\<lambda>x. \<not> is_space x) cs
        \<or> w \<in> set (split_ws (dropWhile (\<lambda>x. \<not> is_space x) cs))"
      by simp
    then show ?thesis
    proof
      assume "w = c # takeWhile (\<lambda>x. \<not> is_space x) cs"
      then show ?thesis using False set_takeWhileD [of _ "\<lambda>x. \<not> is_space x" cs] by auto
    next
      assume "w \<in> set (split_ws (dropWhile (\<lambda>x. \<not> is_space x) cs))"
      with 2(2) [OF False] show ?thesis .
    qed
  qed
qed

lemma split_ws_chars: "w \<in> set (split_ws s) \<Longrightarrow> set w \<subseteq> set s"
proof (induction s rule: split_ws.induct)
  case 1
  then show ?case by simp
next
  case (2 c cs)
  show ?case
  proof (cases "is_space c")
    case True
    with 2 show ?thesis by auto
  next
    case False
    with 2(3) have "w = c # takeWhile (\<lambda>x. \<not> is_space x) cs
        \<or> w \<in> set (split_ws (dropWhile (\<lambda>x. \<not> is_space x) cs))"
      by simp
    then show ?thesis
    proof
      assume "w = c # takeWhile (\<lambda>x. \<not> is_space x) cs"
      then show ?thesis using set_takeWhileD [of _ "\<lambda>x. \<not> is_space x" cs] by auto
    next
      assume "w \<in> set (split_ws (dropWhile (\<lambda>x. \<not> is_space x) cs))"
      with 2(2) [OF False] have "set w \<subseteq> set (dropWhile (\<lambda>x. \<not> is_space x) cs)" .
      then show ?thesis using set_dropWhileD [of _ "\<lambda>x. \<not> is_space x" cs] by auto
    qed
  qed
qed

lemma split_ws_word_app:
  assumes "w \<noteq> []" and "\<forall>c \<in> set w. \<not> is_space c" and "r = [] \<or> is_space (hd r)"
  shows "split_ws (w @ r) = w # split_ws r"
proof (cases w)
  case Nil
  then show ?thesis using assms by simp
next
  case (Cons a w')
  have tr: "takeWhile (\<lambda>x. \<not> is_space x) r = []"
    using assms(3) by (cases r) auto
  have dr: "dropWhile (\<lambda>x. \<not> is_space x) r = r"
    using assms(3) by (cases r) auto
  have al: "\<forall>x \<in> set w'. \<not> is_space x"
    using assms(2) Cons by simp
  have tw: "takeWhile (\<lambda>x. \<not> is_space x) (w' @ r) = w'"
    using al by (simp add: takeWhile_append2 tr)
  have dw: "dropWhile (\<lambda>x. \<not> is_space x) (w' @ r) = r"
    using al by (simp add: dropWhile_append2 dr)
  show ?thesis using assms Cons by (simp add: tw dw)
qed

lemma split_ws_join:
  "\<forall>w \<in> set ws. w \<noteq> [] \<and> (\<forall>c \<in> set w. \<not> is_space c) \<Longrightarrow> split_ws (join '' '' ws) = ws"
proof (induction "'' ''" ws rule: join.induct)
  case 1
  then show ?case by simp
next
  case (2 x)
  then show ?case using split_ws_word_app [of x "[]"] by simp
next
  case (3 x y ys)
  then have "split_ws (x @ CHR '' '' # join '' '' (y # ys)) = x # split_ws (CHR '' '' # join '' '' (y # ys))"
    using split_ws_word_app [of x "CHR '' '' # join '' '' (y # ys)"] by simp
  with 3 show ?case by simp
qed

lemma set_join: "set (join sep ws) \<subseteq> set sep \<union> \<Union> (set ` set ws)"
  by (induction sep ws rule: join.induct) auto

lemma join_split_idem: "join '' '' (split_ws (join '' '' (split_ws s))) = join '' '' (split_ws s)"
proof -
  have "\<forall>w \<in> set (split_ws s). w \<noteq> [] \<and> (\<forall>c \<in> set w. \<not> is_space c)"
    using split_ws_no_space by blast
  then show ?thesis by (simp only: split_ws_join)
qed

lemma brace_not_word_space:
  "is_word c \<or> is_space c \<Longrightarrow> c \<noteq> CHR ''{'' \<and> c \<noteq> CHR ''}'' \<and> c \<noteq> CHR 0x5C"
  by (auto simp add: is_word_def is_latin1_alnum_def is_alnum_def is_alpha_def is_digit_def
      is_lower_def is_upper_def is_space_def ord_def)

lemma filter_id: "\<forall>c \<in> set s. P c \<Longrightarrow> filter P s = s"
  by (induction s) auto

lemma lower_id: "\<forall>c \<in> set s. lower_char c = c \<Longrightarrow> lower s = s"
  by (induction s) (auto simp: lower_def)

lemma normalize_title_chars:
  assumes "c \<in> set (normalize_title x)"
  shows "(is_word c \<or> is_space c) \<and> lower_char c = c"
proof -
  let ?t3 = "filter (\<lambda>c. is_word c \<or> is_space c) (lower (filter (\<lambda>c. c \<noteq> CHR ''{'' \<and> c \<noteq> CHR ''}'') x))"
  from assms have "c \<in> set (join '' '' (split_ws ?t3))"
    by (simp add: normalize_title_def Let_def)
  then have "c = CHR '' '' \<or> c \<in> set ?t3"
  proof -
    assume "c \<in> set (join '' '' (split_ws ?t3))"
    then have "c \<in> set '' '' \<union> \<Union> (set ` set (split_ws ?t3))"
      using set_join by blast
    then show ?thesis using split_ws_chars by fastforce
  qed
  then show ?thesis
  proof
    assume "c = CHR '' ''"
    then show ?thesis by (simp add: lower_char_def has_lowercase_def is_upper_def ord_def)
  next
    assume "c \<in> set ?t3"
    then show ?thesis by (auto simp: lower_def)
  qed
qed

lemma normalize_title_idem: "normalize_title (normalize_title x) = normalize_title x"
proof -
  let ?y = "normalize_title x"
  have a: "filter (\<lambda>c. c \<noteq> CHR ''{'' \<and> c \<noteq> CHR ''}'') ?y = ?y"
    by (rule filter_id) (use normalize_title_chars brace_not_word_space in blast)
  have b: "lower ?y = ?y"
    by (rule lower_id) (use normalize_title_chars in blast)
  have c: "filter (\<lambda>c. is_word c \<or> is_space c) ?y = ?y"
    by (rule filter_id) (use normalize_title_chars in blast)
  have "normalize_title ?y = join '' '' (split_ws ?y)"
    unfolding normalize_title_def [of ?y] Let_def a b c ..
  also have "\<dots> = ?y"
    unfolding normalize_title_def [of x] Let_def by (rule join_split_idem)
  finally show ?thesis .
qed

lemma re_sub_id:
  assumes "\<And>c cs. P c \<Longrightarrow> m (c # cs) = None" and "\<forall>c \<in> set s. P c"
  shows "re_sub m s = s"
  using assms(2) by (induction s) (simp_all add: assms(1) re_sub.simps(2))

lemma match_command_group_None: "c \<noteq> CHR 0x5C \<Longrightarrow> match_command_group (c # cs) = None"
  by (simp add: match_command_group_def)

lemma match_command_None: "c \<noteq> CHR 0x5C \<Longrightarrow> match_command (c # cs) = None"
  by (simp add: match_command_def)

lemma re_sub_spaces_cons_nonspace:
  "\<not> is_space c \<Longrightarrow> re_sub match_spaces (c # cs) = c # re_sub match_spaces cs"
  by (simp add: match_spaces_def re_sub.simps(2))

lemma re_sub_spaces_cons_space:
  "is_space c \<Longrightarrow> re_sub match_spaces (c # cs) = CHR '' '' # re_sub match_spaces (dropWhile is_space cs)"
  by (simp add: match_spaces_def dropWhile_eq_drop re_sub.simps(2))

declare re_sub.simps(2) [simp del]

lemma single_spaced_cons_nonspace:
  "\<not> is_space c \<Longrightarrow> single_spaced (c # r) = single_spaced r"
  by (cases r) auto

lemma single_spaced_cons_blank:
  "single_spaced (CHR '' '' # r) = ((r = [] \<or> \<not> is_space (hd r)) \<and> single_spaced r)"
  by (cases r) auto

lemma re_sub_spaces_hd:
  "s \<noteq> [] \<Longrightarrow> \<not> is_space (hd s) \<Longrightarrow>
   re_sub match_spaces s \<noteq> [] \<and> \<not> is_space (hd (re_sub match_spaces s))"
  by (cases s) (simp_all add: re_sub_spaces_cons_nonspace)

lemma dropWhile_hd: "dropWhile P s = [] \<or> \<not> P (hd (dropWhile P s))"
  using hd_dropWhile by blast

lemma single_spaced_re_sub: "single_spaced (re_sub match_spaces s)"
proof (induction s rule: length_induct)
  case (1 s)
  show ?case
  proof (cases s)
    case Nil
    then show ?thesis by simp
  next
    case (Cons c cs)
    show ?thesis
    proof (cases "is_space c")
      case False
      have "single_spaced (re_sub match_spaces cs)" using 1 Cons by simp
      then show ?thesis using False Cons
        by (simp add: re_sub_spaces_cons_nonspace single_spaced_cons_nonspace)
    next
      case True
      let ?r = "dropWhile is_space cs"
      have len: "length ?r < length s" using Cons by (simp add: length_dropWhile_le less_Suc_eq_le)
      then have ss: "single_spaced (re_sub match_spaces ?r)" using 1 by blast
      have "re_sub match_spaces ?r = [] \<or> \<not> is_space (hd (re_sub match_spaces ?r))"
      proof (cases "?r = []")
        case True
        then have "re_sub match_spaces ?r = []" by (simp only: re_sub.simps(1))
        then show ?thesis ..
      next
        case False
        then have "\<not> is_space (hd ?r)" using hd_dropWhile [of is_space cs] by simp
        with False show ?thesis using re_sub_spaces_hd by blast
      qed
      then show ?thesis using True Cons ss
        by (simp add: re_sub_spaces_cons_space single_spaced_cons_blank)
    qed
  qed
qed

lemma set_re_sub_spaces: "set (re_sub match_spaces s) \<subseteq> insert (CHR '' '') (set s)"
proof (induction s rule: length_induct)
  case (1 s)
  show ?case
  proof (cases s)
    case Nil
    then show ?thesis by simp
  next
    case (Cons c cs)
    show ?thesis
    proof (cases "is_space c")
      case False
      have "set (re_sub match_spaces cs) \<subseteq> insert (CHR '' '') (set cs)" using 1 Cons by simp
      then show ?thesis using False Cons by (auto simp add: re_sub_spaces_cons_nonspace)
    next
      case True
      let ?r = "dropWhile is_space cs"
      have len: "length ?r < length s" using Cons by (simp add: length_dropWhile_le less_Suc_eq_le)
      then have "set (re_sub match_spaces ?r) \<subseteq> insert (CHR '' '') (set ?r)" using 1 by blast
      moreover have "set ?r \<subseteq> set cs" using set_dropWhileD by fastforce
      ultimately show ?thesis using True Cons by (auto simp add: re_sub_spaces_cons_space)
    qed
  qed
qed

lemma re_sub_spaces_id: "single_spaced s \<Longrightarrow> re_sub match_spaces s = s"
proof (induction s rule: single_spaced.induct)
  case 1
  then show ?case by simp
next
  case (2 c)
  then show ?case by (cases "is_space c") (simp_all add: re_sub_spaces_cons_nonspace re_sub_spaces_cons_space)
next
  case (3 c d r)
  then show ?case
    by (cases "is_space c") (simp_all add: re_sub_spaces_cons_nonspace re_sub_spaces_cons_space)
qed

lemma single_spaced_append: "single_spaced (xs @ ys) \<Longrightarrow> single_spaced xs"
proof (induction xs rule: single_spaced.induct)
  case 1
  then show ?case by simp
next
  case (2 c)
  then show ?case by (cases ys) auto
next
  case (3 c d r)
  then show ?case by auto
qed

lemma single_spaced_suffix: "single_spaced (xs @ ys) \<Longrightarrow> single_spaced ys"
proof (induction xs)
  case Nil
  then show ?case by simp
next
  case (Cons a xs)
  then show ?case by (cases "xs @ ys") auto
qed

lemma lower_char_space: "is_space c \<Longrightarrow> lower_char c = c"
  by (auto simp: lower_char_def has_lowercase_def is_upper_def is_space_def ord_def)

lemma single_spaced_lower: "single_spaced s \<Longrightarrow> single_spaced (lower s)"
  by (induction s rule: single_spaced.induct) (auto simp: lower_def lower_char_space)

lemma strip_decomp: "\<exists>p q. s = p @ strip s @ q"
proof -
  let ?d = "dropWhile is_space s"
  have 1: "s = takeWhile is_space s @ ?d" by simp
  have "rev ?d = takeWhile is_space (rev ?d) @ dropWhile is_space (rev ?d)" by simp
  then have "?d = rev (dropWhile is_space (rev ?d)) @ rev (takeWhile is_space (rev ?d))"
    by (metis rev_append rev_rev_ident)
  then have "?d = strip s @ rev (takeWhile is_space (rev ?d))" by (simp add: strip_def)
  with 1 show ?thesis by metis
qed

lemma single_spaced_strip: "single_spaced s \<Longrightarrow> single_spaced (strip s)"
proof -
  assume a: "single_spaced s"
  obtain p q where "s = p @ strip s @ q" using strip_decomp by blast
  with a have "single_spaced (p @ (strip s @ q))" by simp
  then have "single_spaced (strip s @ q)" by (rule single_spaced_suffix)
  then show ?thesis by (rule single_spaced_append)
qed

lemma set_strip: "set (strip s) \<subseteq> set s"
proof -
  obtain p q where "s = p @ strip s @ q" using strip_decomp by blast
  then have "set s = set p \<union> set (strip s) \<union> set q" by (metis set_append sup_assoc)
  then show ?thesis by blast
qed

lemma strip_hd: "strip s = [] \<or> \<not> is_space (hd (strip s))"
proof (cases "strip s = []")
  case True
  then show ?thesis ..
next
  case False
  let ?d = "dropWhile is_space s"
  let ?e = "dropWhile is_space (rev ?d)"
  from False have ne: "?e \<noteq> []" by (simp add: strip_def)
  then have dne: "?d \<noteq> []" by (metis dropWhile.simps(1) rev.simps(1))
  have "rev ?d = takeWhile is_space (rev ?d) @ ?e" by simp
  then have "?d = rev ?e @ rev (takeWhile is_space (rev ?d))" by (metis rev_append rev_rev_ident)
  then have "hd ?d = hd (rev ?e)" using ne by (metis hd_append2 rev_is_Nil_conv)
  moreover have "\<not> is_space (hd ?d)" using dne hd_dropWhile by blast
  ultimately show ?thesis by (simp add: strip_def)
qed

lemma strip_last: "strip s = [] \<or> \<not> is_space (last (strip s))"
proof (cases "strip s = []")
  case True
  then show ?thesis ..
next
  case False
  let ?d = "dropWhile is_space s"
  let ?e = "dropWhile is_space (rev ?d)"
  from False have ne: "?e \<noteq> []" by (simp add: strip_def)
  then have "\<not> is_space (hd ?e)" using hd_dropWhile by blast
  then show ?thesis using ne by (simp add: strip_def last_rev)
qed

lemma strip_id: "s = [] \<or> (\<not> is_space (hd s) \<and> \<not> is_space (last s)) \<Longrightarrow> strip s = s"
proof (cases s)
  case Nil
  then show ?thesis by (simp add: strip_def)
next
  case (Cons a r)
  assume "s = [] \<or> (\<not> is_space (hd s) \<and> \<not> is_space (last s))"
  with Cons have h: "\<not> is_space a" and l: "\<not> is_space (last s)" by auto
  have "dropWhile is_space s = s" using h Cons by simp
  moreover have "dropWhile is_space (rev s) = rev s"
    using l Cons by (cases "rev s") (auto simp: hd_rev [symmetric] dest: arg_cong [where f = hd])
  ultimately show ?thesis by (simp add: strip_def)
qed

lemma strip_idem: "strip (strip s) = strip s"
  using strip_id [of "strip s"] strip_hd [of s] strip_last [of s] by blast

lemma pdf_char_not_special: "pdf_char c \<Longrightarrow> c \<noteq> CHR ''{'' \<and> c \<noteq> CHR ''}'' \<and> c \<noteq> CHR 0x5C"
  by (auto simp add: pdf_char_def is_alnum_def is_alpha_def is_digit_def
      is_lower_def is_upper_def is_space_def ord_def)

lemma map_id_if: "\<forall>c \<in> set s. f c = c \<Longrightarrow> map f s = s"
  by (induction s) auto

lemma normalize_title_pdf_props:
  assumes "y = normalize_title_pdf x"
  shows "(\<forall>c \<in> set y. pdf_char c) \<and> single_spaced y
     \<and> (y = [] \<or> (\<not> is_space (hd y) \<and> \<not> is_space (last y)))"
proof (cases "x = []")
  case True
  then show ?thesis using assms by (simp add: normalize_title_pdf_def)
next
  case False
  define t3 where "t3 = filter (\<lambda>c. c \<noteq> CHR ''{'' \<and> c \<noteq> CHR ''}'' \<and> c \<noteq> CHR 0x5C)
     (re_sub match_command (re_sub match_command_group x))"
  define t4 where "t4 = map (\<lambda>c. if is_alnum c \<or> is_space c then c else CHR '' '') t3"
  define t5 where "t5 = re_sub match_spaces t4"
  have y: "y = strip (lower t5)"
    using False assms by (simp add: normalize_title_pdf_def Let_def t3_def t4_def t5_def)
  have c4: "\<forall>c \<in> set t4. is_alnum c \<or> is_space c"
    by (auto simp: t4_def)
  have c5: "\<forall>c \<in> set t5. is_alnum c \<or> is_space c"
    using c4 set_re_sub_spaces [of t4] by (auto simp: t5_def)
  have c6: "\<forall>c \<in> set (lower t5). pdf_char c"
    using c5 by (auto simp: lower_def pdf_char_def)
  have a: "\<forall>c \<in> set y. pdf_char c"
    using c6 set_strip [of "lower t5"] y by blast
  have "single_spaced t5" by (simp add: t5_def single_spaced_re_sub)
  then have b: "single_spaced y"
    unfolding y by (intro single_spaced_strip single_spaced_lower)
  have c: "y = [] \<or> (\<not> is_space (hd y) \<and> \<not> is_space (last y))"
    unfolding y using strip_hd [of "lower t5"] strip_last [of "lower t5"] by blast
  from a b c show ?thesis by blast
qed

lemma normalize_title_pdf_idem:
  "normalize_title_pdf (normalize_title_pdf x) = normalize_title_pdf x"
proof -
  define y where "y = normalize_title_pdf x"
  have p: "\<forall>c \<in> set y. pdf_char c" and ss: "single_spaced y"
    and e: "y = [] \<or> (\<not> is_space (hd y) \<and> \<not> is_space (last y))"
    using normalize_title_pdf_props [OF y_def] by blast+
  have ns: "\<forall>c \<in> set y. c \<noteq> CHR 0x5C" using p pdf_char_not_special by blast
  have s1: "re_sub match_command_group y = y"
    by (rule re_sub_id [where P = "\<lambda>c. c \<noteq> CHR 0x5C"]) (use ns match_command_group_None in auto)
  have s2: "re_sub match_command y = y"
    by (rule re_sub_id [where P = "\<lambda>c. c \<noteq> CHR 0x5C"]) (use ns match_command_None in auto)
  have s3: "filter (\<lambda>c. c \<noteq> CHR ''{'' \<and> c \<noteq> CHR ''}'' \<and> c \<noteq> CHR 0x5C) y = y"
    by (rule filter_id) (use p pdf_char_not_special in blast)
  have s4: "map (\<lambda>c. if is_alnum c \<or> is_space c then c else CHR '' '') y = y"
    by (rule map_id_if) (use p in \<open>auto simp: pdf_char_def\<close>)
  have s5: "re_sub match_spaces y = y" using ss by (rule re_sub_spaces_id)
  have s6: "lower y = y" by (rule lower_id) (use p in \<open>auto simp: pdf_char_def\<close>)
  have s7: "strip y = y" using e by (rule strip_id)
  have "normalize_title_pdf y = y"
    by (cases "y = []") (simp_all add: normalize_title_pdf_def Let_def s1 s2 s3 s4 s5 s6 s7)
  then show ?thesis by (simp add: y_def)
qed

lemma titles_match_sym: "titles_match a b = titles_match b a"
  by (simp add: titles_match_def Let_def Int_commute min.commute disj_commute)

section \<open>The tokenizer never raises\<close>

lemma brace_loop_Inr: "\<exists>r. brace_loop s start_pos depth pos = Inr r"
proof (induction s start_pos depth pos rule: brace_loop.induct)
  case (1 s start_pos depth pos)
  show ?case
  proof (cases "pos < length s")
    case False
    then show ?thesis by (simp add: brace_loop.simps)
  next
    case True
    then have c: "char_at s pos = Inr (s ! pos)" by (simp add: char_at_def)
    show ?thesis
      using True c "1.IH" [OF True c]
      by (subst brace_loop.simps) auto
  qed
qed

lemma extract_braced_content_Inr: "\<exists>r. extract_braced_content s start_pos = Inr r"
  using brace_loop_Inr [of s start_pos 0 start_pos]
  by (auto simp: extract_braced_content_def char_at_def)

lemma parse_author_field_Inr: "\<exists>r. parse_author_field s = Inr r"
proof (cases "search_author s")
  case None
  then show ?thesis by (simp add: parse_author_field_def)
next
  case (Some start)
  obtain content np where "extract_braced_content s start = Inr (content, np)"
    using extract_braced_content_Inr [of s start] by fastforce
  with Some show ?thesis by (simp add: parse_author_field_def Let_def)
qed

lemma parse_loop_Inr: "\<exists>r. parse_loop s pos fs = Inr r"
proof (induction s pos fs rule: parse_loop.induct)
  case (1 s pos fs)
  show ?case
  proof (cases "pos < length s")
    case False
    then show ?thesis by (simp add: parse_loop.simps)
  next
    case True
    show ?thesis
    proof (cases "search_field (drop pos s)")
      case None
      with True show ?thesis by (simp add: parse_loop.simps)
    next
      case (Some a)
      obtain name mend where a: "a = (name, mend)" by (cases a)
      show ?thesis
      proof (cases "pos + mend \<ge> length s")
        case True
        with \<open>pos < length s\<close> Some a show ?thesis by (simp add: parse_loop.simps)
      next
        case False
        then have c: "char_at s (pos + mend) = Inr (s ! (pos + mend))" by (simp add: char_at_def)
        obtain content np where x: "extract_braced_content s (pos + mend) = Inr (content, np)"
          using extract_braced_content_Inr [of s "pos + mend"] by fastforce
        note ih = "1.IH" [OF True Some a [symmetric] refl refl False c]
        show ?thesis
          using True Some a False c x ih
          by (subst parse_loop.simps) (auto simp: Let_def)
      qed
    qed
  qed
qed

lemma parse_fields_Inr: "parse_fields s = Inr (parsed s)"
proof -
  obtain au where "parse_author_field s = Inr au" using parse_author_field_Inr by blast
  moreover obtain r where "parse_loop s 0 (case au of Some a \<Rightarrow> if a \<noteq> [] then [(''author'', a)] else [] | None \<Rightarrow> []) = Inr r"
    using parse_loop_Inr by blast
  ultimately show ?thesis by (simp add: parse_fields_def parsed_def)
qed

section \<open>The deduplication loop\<close>

lemma index_of_mem:
  "x \<in> set xs \<Longrightarrow> \<exists>i. index_of xs x = Inr i \<and> i < length xs \<and> xs ! i = x"
proof (induction xs)
  case Nil
  then show ?case by simp
next
  case (Cons y ys)
  show ?case
  proof (cases "y = x")
    case True
    then show ?thesis by simp
  next
    case False
    with Cons obtain i where "index_of ys x = Inr i" "i < length ys" "ys ! i = x" by auto
    with False show ?thesis by simp
  qed
qed

lemma filter_update_same:
  assumes "i < length xs" and "P (xs ! i)" and "P y" and "filter P xs = [xs ! i]"
  shows "filter P (xs[i := y]) = [y]"
proof -
  have xs: "xs = take i xs @ xs ! i # drop (Suc i) xs"
    using assms(1) by (simp add: id_take_nth_drop)
  have "filter P xs = filter P (take i xs) @ xs ! i # filter P (drop (Suc i) xs)"
    using assms(2) by (subst xs) simp
  with assms(4) have e: "filter P (take i xs) = []" "filter P (drop (Suc i) xs) = []"
    by (simp_all add: append_eq_Cons_conv)
  have "xs[i := y] = take i xs @ y # drop (Suc i) xs"
    using assms(1) by (simp add: upd_conv_take_nth_drop)
  then have "filter P (xs[i := y]) = filter P (take i xs) @ y # filter P (drop (Suc i) xs)"
    using assms(3) by simp
  with e show ?thesis by simp
qed

lemma filter_update_other:
  assumes "i < length xs" and "\<not> P (xs ! i)" and "\<not> P y"
  shows "filter P (xs[i := y]) = filter P xs"
proof -
  have xs: "xs = take i xs @ xs ! i # drop (Suc i) xs"
    using assms(1) by (simp add: id_take_nth_drop)
  have a: "filter P xs = filter P (take i xs) @ filter P (drop (Suc i) xs)"
    using assms(2) by (subst xs) simp
  have "xs[i := y] = take i xs @ y # drop (Suc i) xs"
    using assms(1) by (simp add: upd_conv_take_nth_drop)
  then have "filter P (xs[i := y]) = filter P (take i xs) @ filter P (drop (Suc i) xs)"
    using assms(3) by simp
  with a show ?thesis by simp
qed

lemma dedup_step_unfold:
  "dedup_step st entry =
     (if entry_doi entry \<noteq> [] then
        (case seen_dois st (entry_doi entry) of
           None \<Rightarrow>
             Inr (st\<lparr>seen_dois := (seen_dois st)(entry_doi entry \<mapsto> entry),
                     unique_entries := unique_entries st @ [entry]\<rparr>)
         | Some existing \<Rightarrow>
             if field_count entry > field_count existing then
               (case index_of (unique_entries st) existing of
                  Inl e \<Rightarrow> Inl e
                | Inr idx \<Rightarrow>
                    Inr (st\<lparr>unique_entries := (unique_entries st)[idx := entry],
                            seen_dois := (seen_dois st)(entry_doi entry \<mapsto> entry)\<rparr>))
             else Inr st)
      else
        (let title_normalized =
               filter (\<lambda>c. is_lower c \<or> is_digit c) (lower (get (entry_fields entry) ''title'' [])) in
           if title_normalized \<noteq> [] \<and> seen_titles st title_normalized = None then
             Inr (st\<lparr>seen_titles := (seen_titles st)(title_normalized \<mapsto> True),
                     unique_entries := unique_entries st @ [entry]\<rparr>)
           else if title_normalized = [] then
             Inr (st\<lparr>unique_entries := unique_entries st @ [entry]\<rparr>)
           else Inr st))"
  unfolding dedup_step_def parse_fields_Inr entry_doi_def entry_fields_def field_count_def
  by (simp add: Let_def split: option.split)

lemma in_set_update: "x \<in> set (xs[i := y]) \<Longrightarrow> x = y \<or> x \<in> set xs"
  by (metis insert_iff set_update_subset_insert subsetD)

lemma dedup_step_subset:
  "dedup_step st entry = Inr st' \<Longrightarrow> set (unique_entries st') \<subseteq> insert entry (set (unique_entries st))"
  by (auto simp: dedup_step_unfold Let_def split: if_splits option.splits sum.splits dest: in_set_update)

lemma dedup_loop_subset:
  "dedup_loop st entries = Inr st' \<Longrightarrow> set (unique_entries st') \<subseteq> set (unique_entries st) \<union> set entries"
proof (induction entries arbitrary: st)
  case Nil
  then show ?case by simp
next
  case (Cons a entries)
  then obtain st1 where 1: "dedup_step st a = Inr st1" and 2: "dedup_loop st1 entries = Inr st'"
    by (auto split: sum.splits)
  from Cons.IH [OF 2] dedup_step_subset [OF 1] show ?case by auto
qed

lemma deduplicate_subset:
  "deduplicate_by_doi entries = Inr out \<Longrightarrow> set out \<subseteq> set entries"
  using dedup_loop_subset [of "\<lparr>seen_dois = Map.empty, seen_titles = Map.empty, unique_entries = []\<rparr>" entries]
  by (auto simp: deduplicate_by_doi_def split: sum.splits)

text \<open>
  The invariant of the loop after the entries \<open>done\<close>: a DOI is registered exactly when
  an entry with it was seen, and its registered entry is the only entry of the output
  with this DOI and the best of those seen.
\<close>

definition dedup_inv :: "dedup_state \<Rightarrow> entry list \<Rightarrow> bool" where
  "dedup_inv st done =
     ((\<forall>d e. seen_dois st d = Some e \<longrightarrow>
          d \<noteq> [] \<and> entry_doi e = d \<and> doi_group d (unique_entries st) = [e]
          \<and> is_best e (doi_group d done))
      \<and> (\<forall>d. d \<noteq> [] \<and> seen_dois st d = None \<longrightarrow>
            doi_group d (unique_entries st) = [] \<and> doi_group d done = []))"

lemma dedup_invI:
  assumes "\<And>d e. seen_dois st d = Some e \<Longrightarrow>
      d \<noteq> [] \<and> entry_doi e = d \<and> doi_group d (unique_entries st) = [e]
      \<and> is_best e (doi_group d done)"
    and "\<And>d. d \<noteq> [] \<Longrightarrow> seen_dois st d = None \<Longrightarrow>
      doi_group d (unique_entries st) = [] \<and> doi_group d done = []"
  shows "dedup_inv st done"
  unfolding dedup_inv_def using assms by blast

lemma dedup_inv_Some:
  "dedup_inv st done \<Longrightarrow> seen_dois st d = Some e \<Longrightarrow>
   d \<noteq> [] \<and> entry_doi e = d \<and> doi_group d (unique_entries st) = [e] \<and> is_best e (doi_group d done)"
  unfolding dedup_inv_def by blast

lemma dedup_inv_None:
  "dedup_inv st done \<Longrightarrow> d \<noteq> [] \<Longrightarrow> seen_dois st d = None \<Longrightarrow>
   doi_group d (unique_entries st) = [] \<and> doi_group d done = []"
  unfolding dedup_inv_def by blast

lemma doi_group_append: "doi_group d (xs @ ys) = doi_group d xs @ doi_group d ys"
  by (simp add: doi_group_def)

lemma doi_group_single: "doi_group d [e] = (if entry_doi e = d then [e] else [])"
  by (simp add: doi_group_def)

lemma is_best_single: "is_best e [e]"
  by (simp add: is_best_def)

lemma is_best_keep:
  assumes "is_best ex g" and "field_count e \<le> field_count ex"
  shows "is_best ex (g @ [e])"
proof -
  from assms(1) have m: "ex \<in> set g" by (simp add: is_best_def)
  then have "takeWhile (\<lambda>x. x \<noteq> ex) (g @ [e]) = takeWhile (\<lambda>x. x \<noteq> ex) g"
    by (induction g) auto
  with assms m show ?thesis by (simp add: is_best_def)
qed

lemma is_best_replace:
  assumes "is_best ex g" and "field_count ex < field_count e"
  shows "is_best e (g @ [e])"
proof -
  from assms(1) have le: "\<forall>x \<in> set g. field_count x \<le> field_count ex"
    by (simp add: is_best_def list_all_iff)
  with assms(2) have lt: "\<forall>x \<in> set g. field_count x < field_count e" by fastforce
  then have "e \<notin> set g" by blast
  then have "takeWhile (\<lambda>x. x \<noteq> e) (g @ [e]) = g"
    by (induction g) auto
  with lt show ?thesis by (simp add: is_best_def list_all_iff less_imp_le)
qed

lemma dedup_inv_init:
  "dedup_inv \<lparr>seen_dois = Map.empty, seen_titles = Map.empty, unique_entries = []\<rparr> []"
  by (simp add: dedup_inv_def doi_group_def)

lemma doi_group_other: "entry_doi e \<noteq> d \<Longrightarrow> doi_group d (xs @ [e]) = doi_group d xs"
  by (simp add: doi_group_def)

lemma doi_group_same: "entry_doi e = d \<Longrightarrow> doi_group d (xs @ [e]) = doi_group d xs @ [e]"
  by (simp add: doi_group_def)

text \<open>An entry without a DOI changes no group.\<close>

lemma dedup_inv_no_doi:
  assumes inv: "dedup_inv st done" and e: "entry_doi entry = []"
    and st': "seen_dois st' = seen_dois st"
    and u: "unique_entries st' = unique_entries st \<or> unique_entries st' = unique_entries st @ [entry]"
  shows "dedup_inv st' (done @ [entry])"
proof (rule dedup_invI)
  fix d x assume s: "seen_dois st' d = Some x"
  then have s0: "seen_dois st d = Some x" by (simp add: st')
  note f = dedup_inv_Some [OF inv s0]
  then have ne: "entry_doi entry \<noteq> d" using e by auto
  have "doi_group d (unique_entries st') = doi_group d (unique_entries st)"
    using u doi_group_other [OF ne] by auto
  then show "d \<noteq> [] \<and> entry_doi x = d \<and> doi_group d (unique_entries st') = [x]
      \<and> is_best x (doi_group d (done @ [entry]))"
    using f doi_group_other [OF ne] by simp
next
  fix d :: string assume d: "d \<noteq> []" and s: "seen_dois st' d = None"
  then have s0: "seen_dois st d = None" by (simp add: st')
  note f = dedup_inv_None [OF inv d s0]
  have ne: "entry_doi entry \<noteq> d" using e d by auto
  have "doi_group d (unique_entries st') = doi_group d (unique_entries st)"
    using u doi_group_other [OF ne] by auto
  then show "doi_group d (unique_entries st') = [] \<and> doi_group d (done @ [entry]) = []"
    using f doi_group_other [OF ne] by simp
qed


text \<open>The first entry with a DOI opens its group.\<close>

lemma dedup_inv_new:
  assumes inv: "dedup_inv st done" and d0: "entry_doi entry \<noteq> []"
    and none: "seen_dois st (entry_doi entry) = None"
    and sd: "seen_dois st' = (seen_dois st)(entry_doi entry \<mapsto> entry)"
    and u: "unique_entries st' = unique_entries st @ [entry]"
  shows "dedup_inv st' (done @ [entry])"
proof (rule dedup_invI)
  fix d x assume s: "seen_dois st' d = Some x"
  show "d \<noteq> [] \<and> entry_doi x = d \<and> doi_group d (unique_entries st') = [x]
      \<and> is_best x (doi_group d (done @ [entry]))"
  proof (cases "d = entry_doi entry")
    case True
    with s have x: "x = entry" by (simp add: sd)
    note f = dedup_inv_None [OF inv d0 none]
    show ?thesis
      using True x d0 f by (simp add: u doi_group_same is_best_single)
  next
    case False
    with s have s0: "seen_dois st d = Some x" by (simp add: sd)
    note f = dedup_inv_Some [OF inv s0]
    have ne: "entry_doi entry \<noteq> d" using False by simp
    show ?thesis using f by (simp add: u doi_group_other [OF ne])
  qed
next
  fix d :: string assume d: "d \<noteq> []" and s: "seen_dois st' d = None"
  then have ne: "entry_doi entry \<noteq> d" by (auto simp: sd)
  with s have s0: "seen_dois st d = None" by (simp add: sd split: if_splits)
  note f = dedup_inv_None [OF inv d s0]
  show "doi_group d (unique_entries st') = [] \<and> doi_group d (done @ [entry]) = []"
    using f by (simp add: u doi_group_other [OF ne])
qed

text \<open>A later entry of a group with no more fields than the registered one changes nothing.\<close>

lemma dedup_inv_keep:
  assumes inv: "dedup_inv st done"
    and some: "seen_dois st (entry_doi entry) = Some ex"
    and le: "field_count entry \<le> field_count ex"
  shows "dedup_inv st (done @ [entry])"
proof (rule dedup_invI)
  fix d x assume s: "seen_dois st d = Some x"
  note f = dedup_inv_Some [OF inv s]
  show "d \<noteq> [] \<and> entry_doi x = d \<and> doi_group d (unique_entries st) = [x]
      \<and> is_best x (doi_group d (done @ [entry]))"
  proof (cases "d = entry_doi entry")
    case True
    with s some have x: "x = ex" by simp
    have "is_best ex (doi_group d done @ [entry])"
      using f x le by (intro is_best_keep) simp_all
    then show ?thesis using f x True by (simp add: doi_group_same)
  next
    case False
    then have ne: "entry_doi entry \<noteq> d" by simp
    show ?thesis using f by (simp add: doi_group_other [OF ne])
  qed
next
  fix d :: string assume d: "d \<noteq> []" and s: "seen_dois st d = None"
  then have ne: "entry_doi entry \<noteq> d" using some by auto
  note f = dedup_inv_None [OF inv d s]
  show "doi_group d (unique_entries st) = [] \<and> doi_group d (done @ [entry]) = []"
    using f by (simp add: doi_group_other [OF ne])
qed

text \<open>A later entry of a group with more fields takes the place of the registered one.\<close>

lemma dedup_inv_replace:
  assumes inv: "dedup_inv st done"
    and some: "seen_dois st (entry_doi entry) = Some ex"
    and gt: "field_count ex < field_count entry"
    and il: "idx < length (unique_entries st)" and ie: "unique_entries st ! idx = ex"
    and sd: "seen_dois st' = (seen_dois st)(entry_doi entry \<mapsto> entry)"
    and u: "unique_entries st' = (unique_entries st)[idx := entry]"
  shows "dedup_inv st' (done @ [entry])"
proof (rule dedup_invI)
  note g = dedup_inv_Some [OF inv some]
  fix d x assume s: "seen_dois st' d = Some x"
  show "d \<noteq> [] \<and> entry_doi x = d \<and> doi_group d (unique_entries st') = [x]
      \<and> is_best x (doi_group d (done @ [entry]))"
  proof (cases "d = entry_doi entry")
    case True
    with s have x: "x = entry" by (simp add: sd)
    have "filter (\<lambda>y. entry_doi y = d) ((unique_entries st)[idx := entry]) = [entry]"
      by (rule filter_update_same) (use il ie g True in \<open>simp_all add: doi_group_def\<close>)
    then have 1: "doi_group d (unique_entries st') = [entry]" by (simp add: u doi_group_def)
    have "is_best entry (doi_group d done @ [entry])"
      using g gt True by (intro is_best_replace [of ex]) simp_all
    then show ?thesis using 1 x True g by (simp add: doi_group_same)
  next
    case False
    with s have s0: "seen_dois st d = Some x" by (simp add: sd)
    note f = dedup_inv_Some [OF inv s0]
    have ne: "entry_doi entry \<noteq> d" using False by simp
    have "filter (\<lambda>y. entry_doi y = d) ((unique_entries st)[idx := entry])
        = filter (\<lambda>y. entry_doi y = d) (unique_entries st)"
      by (rule filter_update_other) (use il ie g ne in simp_all)
    then have "doi_group d (unique_entries st') = doi_group d (unique_entries st)"
      by (simp add: u doi_group_def)
    then show ?thesis using f by (simp add: doi_group_other [OF ne])
  qed
next
  note g = dedup_inv_Some [OF inv some]
  fix d :: string assume d: "d \<noteq> []" and s: "seen_dois st' d = None"
  then have ne: "entry_doi entry \<noteq> d" by (auto simp: sd)
  with s have s0: "seen_dois st d = None" by (simp add: sd split: if_splits)
  note f = dedup_inv_None [OF inv d s0]
  have "filter (\<lambda>y. entry_doi y = d) ((unique_entries st)[idx := entry])
      = filter (\<lambda>y. entry_doi y = d) (unique_entries st)"
    by (rule filter_update_other) (use il ie g ne in simp_all)
  then have "doi_group d (unique_entries st') = doi_group d (unique_entries st)"
    by (simp add: u doi_group_def)
  then show "doi_group d (unique_entries st') = [] \<and> doi_group d (done @ [entry]) = []"
    using f by (simp add: doi_group_other [OF ne])
qed

lemma dedup_step_no_doi:
  assumes "entry_doi entry = []"
  shows "dedup_step st entry = Inr st
     \<or> dedup_step st entry = Inr (st\<lparr>unique_entries := unique_entries st @ [entry]\<rparr>)
     \<or> dedup_step st entry =
         Inr (st\<lparr>seen_titles := (seen_titles st)
                  (filter (\<lambda>c. is_lower c \<or> is_digit c) (lower (get (entry_fields entry) ''title'' []))
                     \<mapsto> True),
                 unique_entries := unique_entries st @ [entry]\<rparr>)"
  unfolding dedup_step_unfold using assms by (simp add: Let_def)

lemma dedup_step_new:
  assumes "entry_doi entry \<noteq> []" and "seen_dois st (entry_doi entry) = None"
  shows "dedup_step st entry =
     Inr (st\<lparr>seen_dois := (seen_dois st)(entry_doi entry \<mapsto> entry),
             unique_entries := unique_entries st @ [entry]\<rparr>)"
  unfolding dedup_step_unfold using assms by simp

lemma dedup_step_keep:
  assumes "entry_doi entry \<noteq> []" and "seen_dois st (entry_doi entry) = Some ex"
    and "field_count entry \<le> field_count ex"
  shows "dedup_step st entry = Inr st"
  unfolding dedup_step_unfold using assms by simp

lemma dedup_step_replace:
  assumes "entry_doi entry \<noteq> []" and "seen_dois st (entry_doi entry) = Some ex"
    and "field_count ex < field_count entry" and "index_of (unique_entries st) ex = Inr idx"
  shows "dedup_step st entry =
     Inr (st\<lparr>unique_entries := (unique_entries st)[idx := entry],
             seen_dois := (seen_dois st)(entry_doi entry \<mapsto> entry)\<rparr>)"
  unfolding dedup_step_unfold using assms by simp


lemma dedup_inv_appended:
  assumes inv: "dedup_inv st done" and True: "entry_doi entry = []"
  shows "dedup_inv (st\<lparr>unique_entries := unique_entries st @ [entry]\<rparr>) (done @ [entry])"
  by (rule dedup_inv_no_doi [OF inv True]) simp_all


lemma dedup_inv_same:
  assumes inv: "dedup_inv st done" and True: "entry_doi entry = []"
  shows "dedup_inv st (done @ [entry])"
  by (rule dedup_inv_no_doi [OF inv True]) simp_all

lemma dedup_inv_titled:
  assumes inv: "dedup_inv st done" and True: "entry_doi entry = []"
  shows "dedup_inv (st\<lparr>seen_titles := (seen_titles st)(tn \<mapsto> True),
                 unique_entries := unique_entries st @ [entry]\<rparr>) (done @ [entry])"
  by (rule dedup_inv_no_doi [OF inv True]) simp_all

lemma dedup_inv_opened:
  assumes inv: "dedup_inv st done" and False: "entry_doi entry \<noteq> []"
    and None: "seen_dois st (entry_doi entry) = None"
  shows "dedup_inv (st\<lparr>seen_dois := (seen_dois st)(entry_doi entry \<mapsto> entry),
             unique_entries := unique_entries st @ [entry]\<rparr>) (done @ [entry])"
  by (rule dedup_inv_new [OF inv False None]) simp_all

lemma dedup_inv_replaced:
  assumes inv: "dedup_inv st done" and Some: "seen_dois st (entry_doi entry) = Some ex"
    and gt: "field_count ex < field_count entry"
    and il: "idx < length (unique_entries st)" and ie: "unique_entries st ! idx = ex"
  shows "dedup_inv (st\<lparr>unique_entries := (unique_entries st)[idx := entry],
             seen_dois := (seen_dois st)(entry_doi entry \<mapsto> entry)\<rparr>) (done @ [entry])"
  by (rule dedup_inv_replace [OF inv Some gt il ie]) simp_all


lemma dedup_step_exI:
  "dedup_step st e = Inr x \<Longrightarrow> dedup_inv x d \<Longrightarrow> \<exists>y. dedup_step st e = Inr y \<and> dedup_inv y d"
  by blast

lemma dedup_inv_step:
  assumes inv: "dedup_inv st done"
  shows "\<exists>st'. dedup_step st entry = Inr st' \<and> dedup_inv st' (done @ [entry])"
proof (cases "entry_doi entry = []")
  case True
  from dedup_step_no_doi [OF True, of st] show ?thesis
  proof (elim disjE)
    assume s: "dedup_step st entry = Inr st"
    show ?thesis by (rule dedup_step_exI [OF s dedup_inv_same [OF inv True]])
  next
    assume s: "dedup_step st entry = Inr (st\<lparr>unique_entries := unique_entries st @ [entry]\<rparr>)"
    show ?thesis by (rule dedup_step_exI [OF s dedup_inv_appended [OF inv True]])
  next
    assume s: "dedup_step st entry =
         Inr (st\<lparr>seen_titles := (seen_titles st)
                  (filter (\<lambda>c. is_lower c \<or> is_digit c) (lower (get (entry_fields entry) ''title'' []))
                     \<mapsto> True),
                 unique_entries := unique_entries st @ [entry]\<rparr>)"
    show ?thesis by (rule dedup_step_exI [OF s dedup_inv_titled [OF inv True]])
  qed
next
  case False
  show ?thesis
  proof (cases "seen_dois st (entry_doi entry)")
    case None
    show ?thesis
      by (rule dedup_step_exI [OF dedup_step_new [OF False None] dedup_inv_opened [OF inv False None]])
  next
    case (Some ex)
    show ?thesis
    proof (cases "field_count entry \<le> field_count ex")
      case True
      show ?thesis
        by (rule dedup_step_exI [OF dedup_step_keep [OF False Some True] dedup_inv_keep [OF inv Some True]])
    next
      case le: False
      then have gt: "field_count ex < field_count entry" by simp
      have "doi_group (entry_doi entry) (unique_entries st) = [ex]"
        using dedup_inv_Some [OF inv Some] by simp
      then have "ex \<in> set (filter (\<lambda>x. entry_doi x = entry_doi entry) (unique_entries st))"
        by (simp add: doi_group_def)
      then have "ex \<in> set (unique_entries st)" by simp
      from index_of_mem [OF this] obtain idx where ix: "index_of (unique_entries st) ex = Inr idx"
        and il: "idx < length (unique_entries st)" and ie: "unique_entries st ! idx = ex"
        by (elim exE conjE)
      show ?thesis
        by (rule dedup_step_exI [OF dedup_step_replace [OF False Some gt ix] dedup_inv_replaced [OF inv Some gt il ie]])
    qed
  qed
qed

lemma dedup_loop_exI:
  "dedup_step st a = Inr st1 \<Longrightarrow> dedup_loop st1 entries = Inr st' \<Longrightarrow> dedup_inv st' d
   \<Longrightarrow> \<exists>y. dedup_loop st (a # entries) = Inr y \<and> dedup_inv y d"
  by simp

lemma dedup_inv_loop:
  "dedup_inv st done \<Longrightarrow> \<exists>st'. dedup_loop st entries = Inr st' \<and> dedup_inv st' (done @ entries)"
proof (induction entries arbitrary: st "done")
  case Nil
  then show ?case by simp
next
  case (Cons a entries)
  from dedup_inv_step [OF Cons.prems, of a]
  obtain st1 where 1: "dedup_step st a = Inr st1" and 2: "dedup_inv st1 (done @ [a])"
    by (elim exE conjE)
  from Cons.IH [OF 2] obtain st' where 3: "dedup_loop st1 entries = Inr st'"
    and 4: "dedup_inv st' ((done @ [a]) @ entries)"
    by (elim exE conjE)
  from 4 have 5: "dedup_inv st' (done @ a # entries)" by simp
  show ?case by (rule dedup_loop_exI [OF 1 3 5])
qed

lemma deduplicate_by_doi_best:
  "\<exists>out. deduplicate_by_doi entries = Inr out
     \<and> (\<forall>d. d \<noteq> [] \<and> doi_group d entries \<noteq> []
          \<longrightarrow> (\<exists>e. doi_group d out = [e] \<and> is_best e (doi_group d entries)))"
proof -
  from dedup_inv_loop [OF dedup_inv_init, of entries]
  obtain st' where l: "dedup_loop \<lparr>seen_dois = Map.empty, seen_titles = Map.empty, unique_entries = []\<rparr> entries = Inr st'"
    and i0: "dedup_inv st' ([] @ entries)"
    by (elim exE conjE)
  from i0 have i: "dedup_inv st' entries" by simp
  have o: "deduplicate_by_doi entries = Inr (unique_entries st')"
    by (simp add: deduplicate_by_doi_def l)
  have b: "\<exists>e. doi_group d (unique_entries st') = [e] \<and> is_best e (doi_group d entries)"
    if "d \<noteq> [] \<and> doi_group d entries \<noteq> []" for d
  proof (cases "seen_dois st' d")
    case None
    from that have d: "d \<noteq> []" and g: "doi_group d entries \<noteq> []" by simp_all
    from dedup_inv_None [OF i d None] g show ?thesis by simp
  next
    case (Some e)
    from dedup_inv_Some [OF i Some]
    have "doi_group d (unique_entries st') = [e] \<and> is_best e (doi_group d entries)" by simp
    then show ?thesis by (rule exI)
  qed
  show ?thesis
  proof (rule exI [of _ "unique_entries st'"], rule conjI [OF o], intro allI impI)
    fix d assume "d \<noteq> [] \<and> doi_group d entries \<noteq> []"
    then show "\<exists>e. doi_group d (unique_entries st') = [e] \<and> is_best e (doi_group d entries)"
      by (rule b)
  qed
qed

section \<open>Short titles never match\<close>

text \<open>
  Claim C9. When the smaller of the two sets of significant words has fewer than three
  elements, \<open>titles_match\<close> answers False, whatever the overlap ratio is.
\<close>

theorem titles_match_short_is_false:
  "min (card (set (get_title_words title1))) (card (set (get_title_words title2))) < 3
   \<Longrightarrow> \<not> titles_match title1 title2"
  by (simp add: titles_match_def Let_def)

text \<open>
  Two equal titles with two significant words: the overlap ratio is 1 and the answer is
  still False.
\<close>

theorem titles_match_short_is_false_witness:
  "min (card (set (get_title_words ''Religion and Health'')))
       (card (set (get_title_words ''Religion and Health''))) < 3
   \<and> card (set (get_title_words ''Religion and Health'')
           \<inter> set (get_title_words ''Religion and Health'')) = 2
   \<and> \<not> titles_match ''Religion and Health'' ''Religion and Health''"
proof -
  have w: "get_title_words ''Religion and Health'' = [''religion'', ''health'']"
    by code_simp
  have h: "min (card (set (get_title_words ''Religion and Health'')))
       (card (set (get_title_words ''Religion and Health''))) < 3"
    unfolding w by simp
  from titles_match_short_is_false [OF h] h show ?thesis
    unfolding w by simp
qed

section \<open>Idempotence of the normalisers\<close>

lemma after_prefix_Some: "after_prefix p s = Some r \<Longrightarrow> s = p @ r"
  by (auto simp: after_prefix_def split: if_splits) (metis append_take_drop_id)

lemma match_resolver_Some:
  assumes "match_resolver z = Some r"
  shows "\<exists>p. p \<noteq> [] \<and> z = p @ r"
proof -
  from assms obtain r1 where 1: "after_prefix ''http'' z = Some r1"
    by (auto simp: match_resolver_def split: option.splits)
  then have "z = ''http'' @ r1" by (rule after_prefix_Some)
  moreover have "\<exists>q. r1 = q @ r"
  proof -
    define r2 where "r2 = (case after_prefix ''s'' r1 of Some r \<Rightarrow> r | None \<Rightarrow> r1)"
    have a: "\<exists>q. r1 = q @ r2"
      using after_prefix_Some [of "''s''" r1] by (auto simp: r2_def split: option.splits)
    from assms 1 obtain r3 where 3: "after_prefix ''://'' r2 = Some r3"
      by (auto simp: match_resolver_def Let_def r2_def split: option.splits)
    then have b: "r2 = ''://'' @ r3" by (rule after_prefix_Some)
    define r4 where "r4 = (case after_prefix ''dx.'' r3 of Some r \<Rightarrow> r | None \<Rightarrow> r3)"
    have c: "\<exists>q. r3 = q @ r4"
      using after_prefix_Some [of "''dx.''" r3] by (auto simp: r4_def split: option.splits)
    from assms 1 3 have "after_prefix ''doi.org/'' r4 = Some r"
      by (auto simp: match_resolver_def Let_def r2_def r4_def split: option.splits)
    then have d: "r4 = ''doi.org/'' @ r" by (rule after_prefix_Some)
    from a b c d show ?thesis by (metis append.assoc)
  qed
  ultimately show ?thesis by (metis append.assoc append_is_Nil_conv list.distinct(1))
qed

lemma length_strip_resolver: "length (strip_resolver z) \<le> length z"
proof (cases "match_resolver z")
  case None
  then show ?thesis by (simp add: strip_resolver_def)
next
  case (Some r)
  then obtain p where "z = p @ r" using match_resolver_Some by blast
  with Some show ?thesis by (simp add: strip_resolver_def)
qed

lemma length_strip: "length (strip s) \<le> length s"
proof -
  obtain p q where "s = p @ strip s @ q" using strip_decomp by blast
  then have "length s = length p + length (strip s) + length q"
    by (metis length_append add.assoc)
  then show ?thesis by simp
qed

lemma strip_same_length: "length (strip s) = length s \<Longrightarrow> strip s = s"
proof -
  assume l: "length (strip s) = length s"
  obtain p q where d: "s = p @ strip s @ q" using strip_decomp by blast
  then have "length s = length p + length (strip s) + length q"
    by (metis length_append add.assoc)
  with l have "p = []" "q = []" by simp_all
  with d show ?thesis by simp
qed

text \<open>A normalised identifier is in lower case and does not end with white space.\<close>

lemma normalize_identifier_shape:
  "lower (normalize_identifier d) = normalize_identifier d
   \<and> (normalize_identifier d = [] \<or> \<not> is_space (last (normalize_identifier d)))"
proof -
  define z where "z = strip (lower d)"
  define y where "y = normalize_identifier d"
  have y: "y = strip_resolver z" by (simp add: y_def z_def normalize_identifier_def)
  have "\<exists>p. z = p @ y"
  proof (cases "match_resolver z")
    case None
    then show ?thesis by (simp add: y strip_resolver_def)
  next
    case (Some r)
    then show ?thesis using match_resolver_Some [OF Some] by (auto simp: y strip_resolver_def)
  qed
  then obtain p where p: "z = p @ y" ..
  have "set y \<subseteq> set (lower d)"
    using p set_strip [of "lower d"] by (auto simp: z_def)
  then have lo: "lower y = y"
    by (intro lower_id) (auto simp: lower_def)
  have "y = [] \<or> \<not> is_space (last y)"
  proof (cases "y = []")
    case True
    then show ?thesis ..
  next
    case False
    then have "last y = last z" using p by simp
    moreover have "z \<noteq> []" using False p by simp
    ultimately show ?thesis using strip_last [of "lower d"] by (simp add: z_def)
  qed
  with lo show ?thesis by (simp add: y_def)
qed

lemma normalize_identifier_fixed:
  assumes m: "match_resolver (normalize_identifier d) = None"
    and h: "normalize_identifier d = [] \<or> \<not> is_space (hd (normalize_identifier d))"
  shows "normalize_identifier (normalize_identifier d) = normalize_identifier d"
proof -
  define y where "y = normalize_identifier d"
  have lo: "lower y = y" and la: "y = [] \<or> \<not> is_space (last y)"
    using normalize_identifier_shape [of d] by (simp_all add: y_def)
  have st: "strip y = y"
    using h la by (intro strip_id) (auto simp: y_def)
  have "normalize_identifier y = strip_resolver y"
    by (simp add: normalize_identifier_def lo st)
  also have "\<dots> = y" using m by (simp add: strip_resolver_def y_def)
  finally show ?thesis by (simp add: y_def)
qed

lemma normalize_identifier_moves:
  assumes "normalize_identifier (normalize_identifier d) = normalize_identifier d"
  shows "match_resolver (normalize_identifier d) = None
     \<and> (normalize_identifier d = [] \<or> \<not> is_space (hd (normalize_identifier d)))"
proof -
  define y where "y = normalize_identifier d"
  have lo: "lower y = y" using normalize_identifier_shape [of d] by (simp add: y_def)
  have eq: "strip_resolver (strip y) = y"
    using assms by (simp add: normalize_identifier_def [of y] lo y_def [symmetric])
  have "length y \<le> length (strip y)"
    using length_strip_resolver [of "strip y"] eq by simp
  with length_strip [of y] have "length (strip y) = length y" by simp
  then have st: "strip y = y" by (rule strip_same_length)
  have hd: "y = [] \<or> \<not> is_space (hd y)" using strip_hd [of y] st by simp
  have "match_resolver y = None"
  proof (cases "match_resolver y")
    case None
    then show ?thesis .
  next
    case (Some r)
    then obtain p where "p \<noteq> []" "y = p @ r" using match_resolver_Some by blast
    then have "length r < length y" by simp
    moreover have "r = y" using eq st Some by (simp add: strip_resolver_def)
    ultimately show ?thesis by simp
  qed
  with hd show ?thesis by (simp add: y_def)
qed

text \<open>
  Claim C8, as the code has it. Both \<open>normalize_title\<close> functions are idempotent on every
  input. The identifier normalisation strips white space and then removes one resolver
  prefix; applying it twice gives the same as applying it once exactly for the identifiers
  whose normalised form starts neither with a further resolver prefix nor with white
  space.
\<close>

theorem normalizers_idempotent:
  "normalize_title (normalize_title x) = normalize_title x
   \<and> normalize_title_pdf (normalize_title_pdf x) = normalize_title_pdf x
   \<and> (normalize_identifier (normalize_identifier d) = normalize_identifier d
        \<longleftrightarrow> match_resolver (normalize_identifier d) = None
            \<and> (normalize_identifier d = [] \<or> \<not> is_space (hd (normalize_identifier d))))"
  using normalize_title_idem normalize_title_pdf_idem normalize_identifier_fixed
    normalize_identifier_moves by blast

text \<open>
  The theorem at a title with markup, an accented letter (0xE9) and a no-break space
  (0xA0), and at a DOI with a resolver prefix.
\<close>

theorem normalizers_idempotent_witness:
  "normalize_title (normalize_title (''{C}af'' @ [CHR 0xE9, CHR 0xA0] @ ''Society:  A Study''))
     = normalize_title (''{C}af'' @ [CHR 0xE9, CHR 0xA0] @ ''Society:  A Study'')
   \<and> normalize_title (''{C}af'' @ [CHR 0xE9, CHR 0xA0] @ ''Society:  A Study'')
     = ''caf'' @ [CHR 0xE9] @ '' society a study''
   \<and> normalize_title_pdf (normalize_title_pdf (''{C}af'' @ [CHR 0xE9, CHR 0xA0] @ ''Society:  A Study''))
     = normalize_title_pdf (''{C}af'' @ [CHR 0xE9, CHR 0xA0] @ ''Society:  A Study'')
   \<and> match_resolver (normalize_identifier ''https://doi.org/10.1234/ABC'') = None
   \<and> \<not> is_space (hd (normalize_identifier ''https://doi.org/10.1234/ABC''))
   \<and> normalize_identifier (normalize_identifier ''https://doi.org/10.1234/ABC'')
     = normalize_identifier ''https://doi.org/10.1234/ABC''"
proof -
  have n: "normalize_identifier ''https://doi.org/10.1234/ABC'' = ''10.1234/abc''"
    by code_simp
  have m: "match_resolver ''10.1234/abc'' = None"
    by code_simp
  have s: "\<not> is_space (hd ''10.1234/abc'')"
    by code_simp
  have t: "normalize_title (''{C}af'' @ [CHR 0xE9, CHR 0xA0] @ ''Society:  A Study'')
     = ''caf'' @ [CHR 0xE9] @ '' society a study''"
    by code_simp
  show ?thesis
    using normalizers_idempotent [of "''{C}af'' @ [CHR 0xE9, CHR 0xA0] @ ''Society:  A Study''"
        "''https://doi.org/10.1234/ABC''"]
      m s t unfolding n by blast
qed

text \<open>
  Claim C8 as stated fails for the identifier. A DOI written with the resolver prefix
  twice loses one prefix per application, and a DOI with a blank or a no-break space
  after the prefix turns up with leading white space, which the second application strips.
\<close>

theorem normalize_identifier_not_idempotent:
  "normalize_identifier (normalize_identifier ''https://doi.org/https://doi.org/10.1234/abc'')
     \<noteq> normalize_identifier ''https://doi.org/https://doi.org/10.1234/abc''
   \<and> normalize_identifier (normalize_identifier ''https://doi.org/ 10.1234/abc'')
     \<noteq> normalize_identifier ''https://doi.org/ 10.1234/abc''
   \<and> normalize_identifier (normalize_identifier (''https://doi.org/'' @ [CHR 0xA0] @ ''10.1234/abc''))
     \<noteq> normalize_identifier (''https://doi.org/'' @ [CHR 0xA0] @ ''10.1234/abc'')"
proof -
  have a: "normalize_identifier ''https://doi.org/https://doi.org/10.1234/abc'' = ''https://doi.org/10.1234/abc''"
    by code_simp
  have b: "normalize_identifier ''https://doi.org/10.1234/abc'' = ''10.1234/abc''"
    by code_simp
  have c: "normalize_identifier ''https://doi.org/ 10.1234/abc'' = '' 10.1234/abc''"
    by code_simp
  have d: "normalize_identifier '' 10.1234/abc'' = ''10.1234/abc''"
    by code_simp
  have e: "normalize_identifier (''https://doi.org/'' @ [CHR 0xA0] @ ''10.1234/abc'') = CHR 0xA0 # ''10.1234/abc''"
    by code_simp
  have f: "normalize_identifier (CHR 0xA0 # ''10.1234/abc'') = ''10.1234/abc''"
    by code_simp
  show ?thesis unfolding a b c d e f by simp
qed

section \<open>One survivor per DOI\<close>

text \<open>
  Claim C1. \<open>deduplicate_by_doi\<close> returns for every list of entries, and for every
  normalised DOI that is not empty and occurs among the entries its output holds exactly
  one entry with this DOI: the one with the most parsed fields, the first of them when
  several have that many. The DOI values \<open>10.1234/ABC\<close> and
  \<open>https://doi.org/10.1234/abc\<close> are the same identifier.
\<close>

theorem dedup_keeps_best_per_doi:
  "(\<exists>out. deduplicate_by_doi entries = Inr out
      \<and> (\<forall>d. d \<noteq> [] \<and> doi_group d entries \<noteq> []
            \<longrightarrow> (\<exists>e. doi_group d out = [e] \<and> is_best e (doi_group d entries))))
   \<and> normalize_identifier ''10.1234/ABC'' = normalize_identifier ''https://doi.org/10.1234/abc''"
proof -
  have "normalize_identifier ''10.1234/ABC'' = ''10.1234/abc''" by code_simp
  moreover have "normalize_identifier ''https://doi.org/10.1234/abc'' = ''10.1234/abc''" by code_simp
  ultimately have n: "normalize_identifier ''10.1234/ABC'' = normalize_identifier ''https://doi.org/10.1234/abc''"
    by simp
  show ?thesis by (rule conjI [OF deduplicate_by_doi_best n])
qed

text \<open>
  Three entries with one DOI in three spellings, with two, three and three fields: the
  second survives, the first of the two with three fields.
\<close>

abbreviation (input) ex_short :: entry where
  "ex_short \<equiv> \<lparr>entry_type = ''article'', original_key = ''a'',
     fields_str = ''author = {Bulbulia, J.}, doi = {10.1234/ABC}''\<rparr>"

abbreviation (input) ex_full :: entry where
  "ex_full \<equiv> \<lparr>entry_type = ''article'', original_key = ''b'',
     fields_str = ''author = {Bulbulia, J.}, year = {2020}, doi = {https://doi.org/10.1234/abc}''\<rparr>"

abbreviation (input) ex_late :: entry where
  "ex_late \<equiv> \<lparr>entry_type = ''article'', original_key = ''c'',
     fields_str = ''author = {Bulbulia, J.}, year = {2021}, doi = {10.1234/abc}''\<rparr>"

theorem dedup_keeps_best_per_doi_witness:
  "deduplicate_by_doi [ex_short, ex_full, ex_late] = Inr [ex_full]
   \<and> doi_group ''10.1234/abc'' [ex_short, ex_full, ex_late] = [ex_short, ex_full, ex_late]
   \<and> field_count ex_short = 2 \<and> field_count ex_full = 3 \<and> field_count ex_late = 3
   \<and> is_best ex_full [ex_short, ex_full, ex_late]"
proof -
  have ev: "deduplicate_by_doi [ex_short, ex_full, ex_late] = Inr [ex_full]"
    by code_simp
  have g: "doi_group ''10.1234/abc'' [ex_short, ex_full, ex_late] = [ex_short, ex_full, ex_late]"
    by code_simp
  have n: "field_count ex_short = 2" "field_count ex_full = 3" "field_count ex_late = 3"
    by code_simp+
  have g1: "doi_group ''10.1234/abc'' [ex_full] = [ex_full]"
    using g by (simp add: doi_group_def split: if_splits)
  from dedup_keeps_best_per_doi [of "[ex_short, ex_full, ex_late]"]
  obtain out where o: "deduplicate_by_doi [ex_short, ex_full, ex_late] = Inr out"
    and b: "\<forall>d. d \<noteq> [] \<and> doi_group d [ex_short, ex_full, ex_late] \<noteq> []
            \<longrightarrow> (\<exists>e. doi_group d out = [e] \<and> is_best e (doi_group d [ex_short, ex_full, ex_late]))"
    by (elim exE conjE)
  from o ev have out: "out = [ex_full]" by simp
  from b have "''10.1234/abc'' \<noteq> [] \<and> doi_group ''10.1234/abc'' [ex_short, ex_full, ex_late] \<noteq> []
      \<longrightarrow> (\<exists>e. doi_group ''10.1234/abc'' out = [e]
            \<and> is_best e (doi_group ''10.1234/abc'' [ex_short, ex_full, ex_late]))"
    by (rule spec)
  then have "\<exists>e. [ex_full] = [e] \<and> is_best e [ex_short, ex_full, ex_late]"
    unfolding out g g1 by simp
  then have "is_best ex_full [ex_short, ex_full, ex_late]" by simp
  with ev g n show ?thesis by simp
qed

section \<open>The author filter\<close>

lemma filter_bulbulia_eq:
  "filter_bulbulia entries
     = Inr (filter (\<lambda>e. is_bulbulia_author (get (entry_fields e) ''author'' [])) entries)"
  by (induction entries) (simp_all add: parse_fields_Inr entry_fields_def)

lemma is_bulbulia_author_field:
  "is_bulbulia_author (get fs ''author'' []) \<Longrightarrow>
   has_field fs ''author'' \<and> contains ''bulbulia'' (lower (get fs ''author'' []))"
  by (auto simp: is_bulbulia_author_def get_def has_field_def split: option.splits if_splits)

text \<open>
  Claim C10. Before deduplication \<open>main\<close> keeps exactly the entries whose parsed author
  field contains \<open>bulbulia\<close> in lower case. The run never raises up to deduplication,
  every surviving record is one of the input that has an author field containing
  \<open>bulbulia\<close>; so a record with no author field never survives.
\<close>

theorem author_filter:
  "filter_bulbulia entries
     = Inr (filter (\<lambda>e. is_bulbulia_author (get (entry_fields e) ''author'' [])) entries)
   \<and> (\<exists>out. surviving entries = Inr out
        \<and> set out \<subseteq> set entries
        \<and> (\<forall>e \<in> set out. has_field (entry_fields e) ''author''
              \<and> contains ''bulbulia'' (lower (get (entry_fields e) ''author'' []))))"
proof -
  let ?b = "filter (\<lambda>e. is_bulbulia_author (get (entry_fields e) ''author'' [])) entries"
  obtain out where o: "deduplicate_by_doi ?b = Inr out"
    using deduplicate_by_doi_best [of ?b] by (elim exE conjE)
  have s: "surviving entries = Inr out"
    by (simp add: surviving_def filter_bulbulia_eq o)
  have sub: "set out \<subseteq> set ?b" using o by (rule deduplicate_subset)
  then have 1: "set out \<subseteq> set entries" by auto
  have 2: "\<forall>e \<in> set out. has_field (entry_fields e) ''author''
      \<and> contains ''bulbulia'' (lower (get (entry_fields e) ''author'' []))"
  proof
    fix e assume "e \<in> set out"
    with sub have "is_bulbulia_author (get (entry_fields e) ''author'' [])" by auto
    then show "has_field (entry_fields e) ''author''
        \<and> contains ''bulbulia'' (lower (get (entry_fields e) ''author'' []))"
      by (rule is_bulbulia_author_field)
  qed
  from s 1 2 have ex: "\<exists>out. surviving entries = Inr out
        \<and> set out \<subseteq> set entries
        \<and> (\<forall>e \<in> set out. has_field (entry_fields e) ''author''
              \<and> contains ''bulbulia'' (lower (get (entry_fields e) ''author'' [])))"
    by (intro exI [of _ out] conjI)
  show ?thesis by (rule conjI [OF filter_bulbulia_eq ex])
qed

text \<open>
  An entry with Bulbulia as second author in capitals, one by another author, and one
  with no author field whose title names Bulbulia: only the first survives.
\<close>

abbreviation (input) ex_joseph :: entry where
  "ex_joseph \<equiv> \<lparr>entry_type = ''article'', original_key = ''k1'',
     fields_str = ''author = {Smith, A. and BULBULIA, Joseph}, title = {Faith}, year = {2020}''\<rparr>"

abbreviation (input) ex_smith :: entry where
  "ex_smith \<equiv> \<lparr>entry_type = ''article'', original_key = ''k2'',
     fields_str = ''author = {Smith, A.}, title = {Hope}, year = {2021}''\<rparr>"

abbreviation (input) ex_anonymous :: entry where
  "ex_anonymous \<equiv> \<lparr>entry_type = ''misc'', original_key = ''k3'',
     fields_str = ''title = {Bulbulia on charity}, year = {2022}''\<rparr>"



theorem author_filter_witness:
  "filter_bulbulia [ex_joseph, ex_smith, ex_anonymous] = Inr [ex_joseph]
   \<and> surviving [ex_joseph, ex_smith, ex_anonymous] = Inr [ex_joseph]
   \<and> has_field (entry_fields ex_joseph) ''author''
   \<and> contains ''bulbulia'' (lower (get (entry_fields ex_joseph) ''author'' []))
   \<and> \<not> contains ''bulbulia'' (lower (get (entry_fields ex_smith) ''author'' []))
   \<and> \<not> has_field (entry_fields ex_anonymous) ''author''"
proof -
  have f: "filter_bulbulia [ex_joseph, ex_smith, ex_anonymous] = Inr [ex_joseph]"
    by code_simp
  have s: "surviving [ex_joseph, ex_smith, ex_anonymous] = Inr [ex_joseph]"
    by code_simp
  have n: "\<not> contains ''bulbulia'' (lower (get (entry_fields ex_smith) ''author'' []))"
    "\<not> has_field (entry_fields ex_anonymous) ''author''"
    by code_simp+
  from author_filter [of "[ex_joseph, ex_smith, ex_anonymous]"]
  obtain out where "surviving [ex_joseph, ex_smith, ex_anonymous] = Inr out"
    and a: "\<forall>e \<in> set out. has_field (entry_fields e) ''author''
              \<and> contains ''bulbulia'' (lower (get (entry_fields e) ''author'' []))"
    by (elim exE conjE)
  with s have "out = [ex_joseph]" by simp
  with a have "has_field (entry_fields ex_joseph) ''author''
     \<and> contains ''bulbulia'' (lower (get (entry_fields ex_joseph) ''author'' []))" by simp
  with f s n show ?thesis by simp
qed

end
